theory Spec2Isabelle
  imports Main "HOL-Library.Word"
begin

section \<open>Block keys and their text form\<close>

text \<open>
  A block position is irrlicht's \<^verbatim>\<open>v3s16\<close>: three signed 16-bit integers.
  A \<^verbatim>\<open>std::string\<close> is a sequence of 8-bit characters that may hold any byte,
  the zero byte included: it is HOL's \<^typ>\<open>string\<close>.
\<close>

type_synonym s16 = "16 word"

record v3s16 =
  X :: s16
  Y :: s16
  Z :: s16

definition digit_char :: "nat \<Rightarrow> char" where
  "digit_char d = char_of (48 + d)"

definition isdigit :: "char \<Rightarrow> bool" where
  "isdigit c \<longleftrightarrow> 48 \<le> (of_char c :: nat) \<and> (of_char c :: nat) \<le> 57"

definition isspace :: "char \<Rightarrow> bool" where
  "isspace c \<longleftrightarrow> (of_char c :: nat) = 32 \<or> (9 \<le> (of_char c :: nat) \<and> (of_char c :: nat) \<le> 13)"

definition digit_val :: "char \<Rightarrow> nat" where
  "digit_val c = of_char c - 48"

fun decimal_nat :: "nat \<Rightarrow> string" where
  "decimal_nat n =
     (if n < 10 then [digit_char n]
      else decimal_nat (n div 10) @ [digit_char (n mod 10)])"

declare decimal_nat.simps [simp del]

text \<open>
  Modelled from the spec: \<^verbatim>\<open>itos\<close> (util/string.h, not among the sources) gives
  ``the canonical decimal text representation'' of a coordinate: the digits of the
  absolute value, most significant first, after a minus sign when it is negative.
\<close>

definition itos :: "int \<Rightarrow> string" where
  "itos i = (if i < 0 then CHR ''-'' # decimal_nat (nat (- i)) else decimal_nat (nat i))"

text \<open>
  C's \<^verbatim>\<open>atoi\<close>: skip white space, read an optional sign, then read decimal digits up
  to the first character that is not one. The result is left unbounded here; the texts
  it is applied to below come from a 32-bit INTEGER column.
\<close>

definition digits_value :: "string \<Rightarrow> nat" where
  "digits_value s = foldl (\<lambda>a c. 10 * a + digit_val c) 0 (takeWhile isdigit s)"

definition atoi :: "string \<Rightarrow> int" where
  "atoi s =
     (case dropWhile isspace s of
        [] \<Rightarrow> 0
      | c # cs \<Rightarrow>
          if c = CHR ''-'' then - int (digits_value cs)
          else if c = CHR ''+'' then int (digits_value cs)
          else int (digits_value (c # cs)))"

text \<open>\<^verbatim>\<open>BIND_POS\<close>: the three coordinates, promoted to \<^verbatim>\<open>int\<close> and printed.\<close>

definition BIND_POS :: "v3s16 \<Rightarrow> string list" where
  "BIND_POS pos = [itos (sint (X pos)), itos (sint (Y pos)), itos (sint (Z pos))]"

section \<open>The storage engine behind libpq\<close>

text \<open>
  The engine is an external collaborator. What the backend can observe of it is modelled
  here: one session, the relation \<^verbatim>\<open>blocks\<close> with its columns \<^verbatim>\<open>x\<close>, \<^verbatim>\<open>y\<close>,
  \<^verbatim>\<open>z\<close> (INTEGER NOT NULL) and \<^verbatim>\<open>data\<close> (BYTEA, nullable), the statements prepared
  in the session, and whether the engine answers a request. A row is its key and its
  payload; \<open>None\<close> is SQL's NULL.
\<close>

type_synonym key = "int \<times> int \<times> int"

type_synonym row = "key \<times> string option"

text \<open>The seven SQL texts of the source, in the order in which the constructor sends them.\<close>

datatype query =
    Q_create_table  \<comment> \<open>\<^verbatim>\<open>CREATE TABLE IF NOT EXISTS "blocks" (..., PRIMARY KEY ("x", "y", "z"))\<close>\<close>
  | Q_begin         \<comment> \<open>\<^verbatim>\<open>BEGIN\<close>\<close>
  | Q_commit        \<comment> \<open>\<^verbatim>\<open>COMMIT\<close>\<close>
  | Q_load          \<comment> \<open>\<^verbatim>\<open>SELECT "data" FROM "blocks" WHERE "x" = $1 AND "y" = $2 AND "z" = $3\<close>\<close>
  | Q_save          \<comment> \<open>\<^verbatim>\<open>WITH upsert AS (UPDATE ... RETURNING *) INSERT ... WHERE NOT EXISTS (SELECT * FROM upsert)\<close>\<close>
  | Q_delete        \<comment> \<open>\<^verbatim>\<open>DELETE FROM "blocks" WHERE "x" = $1 AND "y" = $2 AND "z" = $3\<close>\<close>
  | Q_list          \<comment> \<open>\<^verbatim>\<open>SELECT "x", "y", "z" FROM "blocks"\<close>\<close>

text \<open>
  A parameter as libpq receives it: a text parameter is a C string (the decimal texts
  sent here hold no zero byte); a binary parameter is a buffer together with the
  \<^verbatim>\<open>int\<close> of \<^verbatim>\<open>paramLengths\<close>.
\<close>

datatype param = Text string | Binary string int

datatype ExecStatusType = PGRES_COMMAND_OK | PGRES_TUPLES_OK | PGRES_FATAL_ERROR

record PGresult =
  resultStatus :: ExecStatusType
  tuples :: "string option list list"
  resultErrorMessage :: string

datatype ConnStatusType = CONNECTION_OK | CONNECTION_BAD

text \<open>How the engine treats one request: it answers, it reports an error, or libpq has no result.\<close>

datatype response = Answers | Fails | NoResult

record PGconn =
  reachable :: bool  \<comment> \<open>does the connection descriptor reach an engine\<close>
  handles :: nat  \<comment> \<open>connection objects made by \<^verbatim>\<open>PQconnectdb\<close> and not yet given to \<^verbatim>\<open>PQfinish\<close>\<close>
  status :: ConnStatusType
  relation :: "row list option"  \<comment> \<open>the rows of \<^verbatim>\<open>blocks\<close>; \<open>None\<close> before the table exists\<close>
  prepared :: "(string \<times> query) list"
  responses :: "response list"  \<comment> \<open>the engine's treatment of the coming requests; it answers all later ones\<close>

definition command_ok :: PGresult where
  "command_ok = \<lparr>resultStatus = PGRES_COMMAND_OK, tuples = [], resultErrorMessage = []\<rparr>"

definition tuples_ok :: "string option list list \<Rightarrow> PGresult" where
  "tuples_ok ts = \<lparr>resultStatus = PGRES_TUPLES_OK, tuples = ts, resultErrorMessage = []\<rparr>"

definition fatal_error :: "string \<Rightarrow> PGresult" where
  "fatal_error msg = \<lparr>resultStatus = PGRES_FATAL_ERROR, tuples = [], resultErrorMessage = msg\<rparr>"

text \<open>
  The engine's conversions for INTEGER. Input accepts the canonical decimal text of a
  32-bit value, which is the only form this backend sends; output prints that text.
\<close>

definition int4in :: "string \<Rightarrow> int option" where
  "int4in s =
     (let v = atoi s
      in if itos v = s \<and> - (2 ^ 31) \<le> v \<and> v < 2 ^ 31 then Some v else None)"

definition int4out :: "int \<Rightarrow> string" where
  "int4out v = itos v"

fun key_params :: "param list \<Rightarrow> (key \<times> param list) option" where
  "key_params (Text a # Text b # Text c # ps) =
     (case int4in a of None \<Rightarrow> None
      | Some x \<Rightarrow> (case int4in b of None \<Rightarrow> None
      | Some y \<Rightarrow> (case int4in c of None \<Rightarrow> None
      | Some z \<Rightarrow> Some ((x, y, z), ps))))"
| "key_params ps = None"

text \<open>
  A binary BYTEA parameter is the first \<open>len\<close> bytes of the buffer, zero bytes
  included. libpq cannot send a negative length: the request fails.
\<close>

fun bytea_param :: "param \<Rightarrow> string option" where
  "bytea_param (Binary buf len) = (if len < 0 then None else Some (take (nat len) buf))"
| "bytea_param (Text s) = None"

definition select_data :: "key \<Rightarrow> row list \<Rightarrow> string option list list" where
  "select_data k t = map (\<lambda>r. [snd r]) (filter (\<lambda>r. fst r = k) t)"

text \<open>
  The statement \<^verbatim>\<open>save\<close>: the UPDATE rewrites the payload of every row with the key;
  the INSERT adds the row only when the UPDATE returned no row.
\<close>

definition upsert :: "key \<Rightarrow> string \<Rightarrow> row list \<Rightarrow> row list" where
  "upsert k d t =
     (if filter (\<lambda>r. fst r = k) t \<noteq> []
      then map (\<lambda>r. if fst r = k then (fst r, Some d) else r) t
      else t @ [(k, Some d)])"

definition delete_rows :: "key \<Rightarrow> row list \<Rightarrow> row list" where
  "delete_rows k t = filter (\<lambda>r. fst r \<noteq> k) t"

definition select_xyz :: "row list \<Rightarrow> string option list list" where
  "select_xyz t =
     map (\<lambda>r. case fst r of (x, y, z) \<Rightarrow> [Some (int4out x), Some (int4out y), Some (int4out z)]) t"

text \<open>
  What each statement does to the table and answers. \<^verbatim>\<open>loadBlock\<close> asks for binary
  results, so a payload comes back as its bytes; \<^verbatim>\<open>listAllLoadableBlocks\<close> asks for
  text results, so a coordinate comes back as decimal text. The session sees its own
  writes at once, inside a transaction or not; \<^verbatim>\<open>BEGIN\<close> and \<^verbatim>\<open>COMMIT\<close> are
  acknowledged and roll-back is not modelled. A statement that does not fit the table or
  its parameters is answered with an error and changes nothing.
\<close>

fun run_query :: "query \<Rightarrow> param list \<Rightarrow> row list option \<Rightarrow> PGresult \<times> row list option" where
  "run_query Q_create_table [] rel =
     (command_ok, Some (case rel of None \<Rightarrow> [] | Some t \<Rightarrow> t))"
| "run_query Q_begin [] rel = (command_ok, rel)"
| "run_query Q_commit [] rel = (command_ok, rel)"
| "run_query Q_load ps (Some t) =
     (case key_params ps of
        Some (k, []) \<Rightarrow> (tuples_ok (select_data k t), Some t)
      | _ \<Rightarrow> (fatal_error ''bind message does not fit the statement'', Some t))"
| "run_query Q_save ps (Some t) =
     (case key_params ps of
        Some (k, [p]) \<Rightarrow>
          (case bytea_param p of
             Some d \<Rightarrow> (command_ok, Some (upsert k d t))
           | None \<Rightarrow> (fatal_error ''bind message does not fit the statement'', Some t))
      | _ \<Rightarrow> (fatal_error ''bind message does not fit the statement'', Some t))"
| "run_query Q_delete ps (Some t) =
     (case key_params ps of
        Some (k, []) \<Rightarrow> (command_ok, Some (delete_rows k t))
      | _ \<Rightarrow> (fatal_error ''bind message does not fit the statement'', Some t))"
| "run_query Q_list [] (Some t) = (tuples_ok (select_xyz t), Some t)"
| "run_query q ps rel = (fatal_error ''statement cannot be executed'', rel)"

subsection \<open>The libpq calls the backend makes\<close>

text \<open>
  \<^verbatim>\<open>PQconnectdb\<close> makes a connection object whether or not the engine is reached;
  \<^verbatim>\<open>PQfinish\<close> gives it back. Every other call is a request on the session: without a
  good connection libpq has no result; otherwise the engine treats the request as
  \<open>responses\<close> says, and only a request that it answers is run.
\<close>

definition next_response :: "PGconn \<Rightarrow> response" where
  "next_response c = (case responses c of [] \<Rightarrow> Answers | r # rs \<Rightarrow> r)"

definition PQconnectdb :: "string \<Rightarrow> PGconn \<Rightarrow> PGconn" where
  "PQconnectdb conninfo c =
     c\<lparr>handles := handles c + 1,
       status := (if reachable c then CONNECTION_OK else CONNECTION_BAD),
       prepared := []\<rparr>"

definition PQfinish :: "PGconn \<Rightarrow> PGconn" where
  "PQfinish c = c\<lparr>handles := handles c - 1, status := CONNECTION_BAD, prepared := []\<rparr>"

definition request :: "(PGconn \<Rightarrow> PGresult \<times> PGconn) \<Rightarrow> PGconn \<Rightarrow> PGresult option \<times> PGconn" where
  "request run c =
     (if status c \<noteq> CONNECTION_OK then (None, c)
      else
        let c' = c\<lparr>responses := tl (responses c)\<rparr>
        in case next_response c of
             NoResult \<Rightarrow> (None, c')
           | Fails \<Rightarrow> (Some (fatal_error ''the engine failed''), c')
           | Answers \<Rightarrow> (case run c' of (r, c'') \<Rightarrow> (Some r, c'')))"

definition PQexec :: "query \<Rightarrow> PGconn \<Rightarrow> PGresult option \<times> PGconn" where
  "PQexec q =
     request (\<lambda>c. case run_query q [] (relation c) of (r, rel) \<Rightarrow> (r, c\<lparr>relation := rel\<rparr>))"

definition PQprepare :: "string \<Rightarrow> query \<Rightarrow> PGconn \<Rightarrow> PGresult option \<times> PGconn" where
  "PQprepare stmtName q =
     request (\<lambda>c. case map_of (prepared c) stmtName of
                    Some q' \<Rightarrow> (fatal_error ''prepared statement already exists'', c)
                  | None \<Rightarrow> (command_ok, c\<lparr>prepared := (stmtName, q) # prepared c\<rparr>))"

definition PQexecPrepared :: "string \<Rightarrow> param list \<Rightarrow> PGconn \<Rightarrow> PGresult option \<times> PGconn" where
  "PQexecPrepared stmtName params =
     request (\<lambda>c. case map_of (prepared c) stmtName of
                    None \<Rightarrow> (fatal_error ''prepared statement does not exist'', c)
                  | Some q \<Rightarrow> (case run_query q params (relation c) of
                                (r, rel) \<Rightarrow> (r, c\<lparr>relation := rel\<rparr>)))"

definition PQntuples :: "PGresult \<Rightarrow> nat" where
  "PQntuples r = length (tuples r)"

text \<open>
  \<^verbatim>\<open>PQgetvalue\<close> together with \<^verbatim>\<open>PQgetlength\<close>: the bytes of a field, none for NULL
  (and none where libpq has no such field).
\<close>

definition PQgetvalue :: "PGresult \<Rightarrow> nat \<Rightarrow> nat \<Rightarrow> string" where
  "PQgetvalue r i j =
     (if i < length (tuples r) \<and> j < length (tuples r ! i)
      then (case tuples r ! i ! j of None \<Rightarrow> [] | Some v \<Rightarrow> v)
      else [])"

section \<open>The PostgreSQL backend (database-postgresql.cpp)\<close>

datatype exn = SettingNotFoundException string | FileNotGoodException string

text \<open>
  A member function takes the session and returns what it returned or threw, with the
  session as it left it. The texts of the exceptions are shortened: the file, the line
  and libpq's connection error message are left out of them.
\<close>

definition PG_RES :: "PGresult option \<Rightarrow> ExecStatusType \<Rightarrow> exn + PGresult" where
  "PG_RES res wanted_res =
     (case res of
        None \<Rightarrow> Inl (FileNotGoodException (''PostgreSQL database error: '' @ ''Result is NULL!''))
      | Some r \<Rightarrow>
          if resultStatus r \<noteq> wanted_res
          then Inl (FileNotGoodException (''PostgreSQL database error: '' @ resultErrorMessage r))
          else Inr r)"

definition PG_OK_FREE :: "(PGconn \<Rightarrow> PGresult option \<times> PGconn) \<Rightarrow> PGconn \<Rightarrow> (exn + unit) \<times> PGconn" where
  "PG_OK_FREE s c =
     (case s c of (res, c') \<Rightarrow>
        (case PG_RES res PGRES_COMMAND_OK of Inl e \<Rightarrow> (Inl e, c') | Inr r \<Rightarrow> (Inr (), c')))"

definition PREPARE_STATEMENT :: "string \<Rightarrow> query \<Rightarrow> PGconn \<Rightarrow> (exn + unit) \<times> PGconn" where
  "PREPARE_STATEMENT name q = PG_OK_FREE (PQprepare name q)"

text \<open>Statements in sequence: the first that throws ends the function.\<close>

fun statements :: "(PGconn \<Rightarrow> (exn + unit) \<times> PGconn) list \<Rightarrow> PGconn \<Rightarrow> (exn + unit) \<times> PGconn" where
  "statements [] c = (Inr (), c)"
| "statements (s # ss) c =
     (case s c of (Inl e, c') \<Rightarrow> (Inl e, c') | (Inr u, c') \<Rightarrow> statements ss c')"

definition Database_PostgreSQL :: "(string \<rightharpoonup> string) \<Rightarrow> PGconn \<Rightarrow> (exn + unit) \<times> PGconn" where
  "Database_PostgreSQL conf c =
     (case conf ''postgresql_connection_info'' of
        None \<Rightarrow>
          (Inl (SettingNotFoundException
             ''postgresql_connection_info must be set in world.mt to use the PostgreSQL backend!''), c)
      | Some conninfo \<Rightarrow>
          let c1 = PQconnectdb conninfo c
          in if status c1 \<noteq> CONNECTION_OK
             then (Inl (FileNotGoodException ''Couldn't open PostgreSQL database connection''), c1)
             else statements
               [PG_OK_FREE (PQexec Q_create_table),
                PREPARE_STATEMENT ''begin'' Q_begin,
                PREPARE_STATEMENT ''end'' Q_commit,
                PREPARE_STATEMENT ''load'' Q_load,
                PREPARE_STATEMENT ''save'' Q_save,
                PREPARE_STATEMENT ''delete'' Q_delete,
                PREPARE_STATEMENT ''list'' Q_list] c1)"

definition beginSave :: "PGconn \<Rightarrow> (exn + unit) \<times> PGconn" where
  "beginSave = PG_OK_FREE (PQexecPrepared ''begin'' [])"

definition endSave :: "PGconn \<Rightarrow> (exn + unit) \<times> PGconn" where
  "endSave = PG_OK_FREE (PQexecPrepared ''end'' [])"

definition deleteBlock :: "v3s16 \<Rightarrow> PGconn \<Rightarrow> (exn + bool) \<times> PGconn" where
  "deleteBlock pos c =
     (case PG_OK_FREE (PQexecPrepared ''delete'' (map Text (BIND_POS pos))) c of
        (Inl e, c') \<Rightarrow> (Inl e, c')
      | (Inr u, c') \<Rightarrow> (Inr True, c'))"

text \<open>
  \<^verbatim>\<open>(int) data.size()\<close>: the size is cut to 32 bits and read as a signed value.
\<close>

definition int_of_size :: "nat \<Rightarrow> int" where
  "int_of_size n = sint (word_of_nat n :: 32 word)"

definition saveBlock :: "v3s16 \<Rightarrow> string \<Rightarrow> PGconn \<Rightarrow> (exn + bool) \<times> PGconn" where
  "saveBlock pos data c =
     (let params = map Text (BIND_POS pos) @ [Binary data (int_of_size (length data))]
      in case PG_OK_FREE (PQexecPrepared ''save'' params) c of
           (Inl e, c') \<Rightarrow> (Inl e, c')
         | (Inr u, c') \<Rightarrow> (Inr True, c'))"

definition loadBlock :: "v3s16 \<Rightarrow> PGconn \<Rightarrow> (exn + string) \<times> PGconn" where
  "loadBlock pos c =
     (case PQexecPrepared ''load'' (map Text (BIND_POS pos)) c of (res, c') \<Rightarrow>
        (case PG_RES res PGRES_TUPLES_OK of
           Inl e \<Rightarrow> (Inl e, c')
         | Inr r \<Rightarrow> (Inr (if PQntuples r \<noteq> 0 then PQgetvalue r 0 0 else []), c')))"

text \<open>The loop of \<^verbatim>\<open>listAllLoadableBlocks\<close>, from row \<open>i\<close> up to \<open>rows\<close>.\<close>

function push_rows :: "PGresult \<Rightarrow> nat \<Rightarrow> nat \<Rightarrow> v3s16 list \<Rightarrow> v3s16 list" where
  "push_rows res i rows dst =
     (if i < rows
      then push_rows res (i + 1) rows
             (dst @ [\<lparr>X = word_of_int (atoi (PQgetvalue res i 0)),
                      Y = word_of_int (atoi (PQgetvalue res i 1)),
                      Z = word_of_int (atoi (PQgetvalue res i 2))\<rparr>])
      else dst)"
  by pat_completeness auto
termination
  by (relation "measure (\<lambda>(res, i, rows, dst). rows - i)") auto

declare push_rows.simps [simp del]

definition listAllLoadableBlocks :: "v3s16 list \<Rightarrow> PGconn \<Rightarrow> (exn + v3s16 list) \<times> PGconn" where
  "listAllLoadableBlocks dst c =
     (case PQexecPrepared ''list'' [] c of (res, c') \<Rightarrow>
        (case PG_RES res PGRES_TUPLES_OK of
           Inl e \<Rightarrow> (Inl e, c')
         | Inr r \<Rightarrow> (Inr (push_rows r 0 (PQntuples r) dst), c')))"

text \<open>The destructor.\<close>

definition destroy :: "PGconn \<Rightarrow> PGconn" where
  "destroy c = PQfinish c"

section \<open>What the claims about the backend speak of\<close>

text \<open>
  The row key that the engine holds for a position, and the position that
  \<^verbatim>\<open>listAllLoadableBlocks\<close> reads back from a key.
\<close>

definition key_of :: "v3s16 \<Rightarrow> key" where
  "key_of pos = (sint (X pos), sint (Y pos), sint (Z pos))"

definition pos_of :: "key \<Rightarrow> v3s16" where
  "pos_of k = (case k of (x, y, z) \<Rightarrow> \<lparr>X = word_of_int x, Y = word_of_int y, Z = word_of_int z\<rparr>)"

text \<open>
  The rows of \<^verbatim>\<open>blocks\<close>, none while the table does not exist.
\<close>

definition table_of :: "PGconn \<Rightarrow> row list" where
  "table_of c = (case relation c of None \<Rightarrow> [] | Some t \<Rightarrow> t)"

definition in_s16 :: "int \<Rightarrow> bool" where
  "in_s16 v \<longleftrightarrow> - 32768 \<le> v \<and> v < 32768"

definition s16_key :: "key \<Rightarrow> bool" where
  "s16_key k = (case k of (x, y, z) \<Rightarrow> in_s16 x \<and> in_s16 y \<and> in_s16 z)"

text \<open>
  A session that answers the coming requests, and the session after one request.
\<close>

definition answering :: "PGconn \<Rightarrow> bool" where
  "answering c \<longleftrightarrow> status c = CONNECTION_OK \<and> list_all (\<lambda>r. r = Answers) (responses c)"

definition answered :: "PGconn \<Rightarrow> PGconn" where
  "answered c = c\<lparr>responses := tl (responses c)\<rparr>"

text \<open>
  A session as the constructor leaves it, with an engine that answers: the six
  statements are prepared under their names, the table exists, it has at most one row for a
  key (the primary key) and its keys are positions (nothing but this backend wrote it).
\<close>

definition ready :: "PGconn \<Rightarrow> bool" where
  "ready c \<longleftrightarrow>
     answering c \<and>
     map_of (prepared c) ''begin'' = Some Q_begin \<and>
     map_of (prepared c) ''end'' = Some Q_commit \<and>
     map_of (prepared c) ''load'' = Some Q_load \<and>
     map_of (prepared c) ''save'' = Some Q_save \<and>
     map_of (prepared c) ''delete'' = Some Q_delete \<and>
     map_of (prepared c) ''list'' = Some Q_list \<and>
     relation c \<noteq> None \<and>
     distinct (map fst (table_of c)) \<and>
     list_all (\<lambda>r. s16_key (fst r)) (table_of c)"

text \<open>
  The payload of the first row with the key, as \<^verbatim>\<open>loadBlock\<close> reads it from the result.
\<close>

definition first_data :: "key \<Rightarrow> row list \<Rightarrow> string" where
  "first_data k t = (case filter (\<lambda>r. fst r = k) t of [] \<Rightarrow> [] | r # rs \<Rightarrow> (case snd r of None \<Rightarrow> [] | Some v \<Rightarrow> v))"

text \<open>
  The position that the loop of \<^verbatim>\<open>listAllLoadableBlocks\<close> makes of row \<open>i\<close>.
\<close>

definition row_pos :: "PGresult \<Rightarrow> nat \<Rightarrow> v3s16" where
  "row_pos res i =
     \<lparr>X = word_of_int (atoi (PQgetvalue res i 0)),
      Y = word_of_int (atoi (PQgetvalue res i 1)),
      Z = word_of_int (atoi (PQgetvalue res i 2))\<rparr>"

text \<open>
  Saving several blocks one after the other; the first \<^verbatim>\<open>saveBlock\<close> that throws ends it.
\<close>

fun saveBlocks :: "(v3s16 \<times> string) list \<Rightarrow> PGconn \<Rightarrow> (exn + unit) \<times> PGconn" where
  "saveBlocks [] c = (Inr (), c)"
| "saveBlocks ((pos, d) # rest) c =
     (case saveBlock pos d c of (Inl e, c') \<Rightarrow> (Inl e, c') | (Inr b, c') \<Rightarrow> saveBlocks rest c')"

datatype call =
    BeginSave | EndSave | SaveBlock v3s16 string | LoadBlock v3s16 | DeleteBlock v3s16
  | ListAllLoadableBlocks

text \<open>One call of a member function by the owner of the backend, who may catch what it throws.\<close>

fun invoke :: "call \<Rightarrow> PGconn \<Rightarrow> PGconn" where
  "invoke BeginSave c = snd (beginSave c)"
| "invoke EndSave c = snd (endSave c)"
| "invoke (SaveBlock pos d) c = snd (saveBlock pos d c)"
| "invoke (LoadBlock pos) c = snd (loadBlock pos c)"
| "invoke (DeleteBlock pos) c = snd (deleteBlock pos c)"
| "invoke ListAllLoadableBlocks c = snd (listAllLoadableBlocks [] c)"

text \<open>
  The life of one backend object. C++ runs the destructor of an object whose constructor
  has completed; when the constructor throws, the object never existed and its destructor
  does not run.
\<close>

definition lifetime :: "(string \<rightharpoonup> string) \<Rightarrow> call list \<Rightarrow> PGconn \<Rightarrow> PGconn" where
  "lifetime conf calls c =
     (case Database_PostgreSQL conf c of
        (Inl e, c') \<Rightarrow> c'
      | (Inr u, c') \<Rightarrow> destroy (fold invoke calls c'))"

subsection \<open>Concrete sessions and inputs\<close>

text \<open>
  An engine that can be reached, holds no table yet and answers every request; a
  configuration that names it; and the session the constructor opens there.
\<close>

definition fresh_engine :: PGconn where
  "fresh_engine =
     \<lparr>reachable = True, handles = 0, status = CONNECTION_BAD, relation = None,
      prepared = [], responses = []\<rparr>"

definition world_mt :: "string \<rightharpoonup> string" where
  "world_mt = [''postgresql_connection_info'' \<mapsto> ''host=127.0.0.1 dbname=minetest'']"

definition opened :: PGconn where
  "opened = snd (Database_PostgreSQL world_mt fresh_engine)"

text \<open>
  An engine that refuses the connection, and one that fails the second request it gets.
\<close>

definition unreachable_engine :: PGconn where
  "unreachable_engine = fresh_engine\<lparr>reachable := False\<rparr>"

definition failing_engine :: PGconn where
  "failing_engine = fresh_engine\<lparr>responses := [Answers, Fails]\<rparr>"

text \<open>
  A position, and a payload of \<open>2^32 + 3\<close> zero bytes.
\<close>

definition pos123 :: v3s16 where
  "pos123 = \<lparr>X = 1, Y = 2, Z = 3\<rparr>"

definition big_payload :: string where
  "big_payload = replicate (2 ^ 32 + 3) (CHR 0x00)"

section \<open>Memory (util/pointer.h)\<close>

text \<open>
  The two buffer classes are templates over an element type \<open>T\<close>. What the code uses
  of \<open>T\<close> is \<^verbatim>\<open>sizeof(T)\<close>, written \<open>sz\<close> below: an array of \<open>n\<close> elements is a
  block of \<open>sz * n\<close> bytes, and element \<open>i\<close> is the \<open>sz\<close> bytes from offset \<open>sz * i\<close>.
  The heap holds the blocks made by \<^verbatim>\<open>new T[n]\<close>, the counters made by
  \<^verbatim>\<open>new unsigned int\<close>, and the buffer objects themselves, each at its own address
  (\<^verbatim>\<open>this\<close>). New memory is not initialised: it holds whatever \<open>garbage\<close> says.
  \<open>released\<close> records what was handed to \<^verbatim>\<open>delete[]\<close> and \<^verbatim>\<open>delete\<close>, in order.
  Sizes of type \<^verbatim>\<open>size_t\<close> are natural numbers (an array that exists fits);
  \<^verbatim>\<open>unsigned int\<close> is a 32-bit word. Allocation itself does not fail here.
\<close>

type_synonym byte = "8 word"

type_synonym addr = nat

datatype trap = AssertionFailed | UndefinedBehaviour

record Buffer =
  data :: "addr option"
  m_size :: nat

record SharedBuffer =
  data :: "addr option"
  m_size :: "32 word"
  refcount :: addr

record heap =
  arrays :: "addr \<rightharpoonup> byte list"
  counters :: "addr \<rightharpoonup> 32 word"
  fresh :: addr
  garbage :: "addr \<Rightarrow> nat \<Rightarrow> byte"
  released :: "addr list"
  buffers :: "addr \<rightharpoonup> Buffer"
  shared_buffers :: "addr \<rightharpoonup> SharedBuffer"

definition and_then :: "trap + 'a \<Rightarrow> ('a \<Rightarrow> trap + 'b) \<Rightarrow> trap + 'b" where
  "and_then r f = (case r of Inl e \<Rightarrow> Inl e | Inr x \<Rightarrow> f x)"

definition new_array :: "nat \<Rightarrow> heap \<Rightarrow> addr \<times> heap" where
  "new_array nbytes h =
     (fresh h,
      h\<lparr>arrays := (arrays h)(fresh h \<mapsto> map (garbage h (fresh h)) [0..<nbytes]),
        fresh := fresh h + 1\<rparr>)"

definition new_unsigned_int :: "heap \<Rightarrow> addr \<times> heap" where
  "new_unsigned_int h =
     (fresh h,
      h\<lparr>counters := (counters h)(fresh h \<mapsto> ucast (garbage h (fresh h) 0)),
        fresh := fresh h + 1\<rparr>)"

text \<open>\<^verbatim>\<open>delete[]\<close> of the null pointer does nothing; of a block that is not live it is undefined.\<close>

definition delete_array :: "addr option \<Rightarrow> heap \<Rightarrow> trap + heap" where
  "delete_array p h =
     (case p of
        None \<Rightarrow> Inr h
      | Some a \<Rightarrow>
          (case arrays h a of
             None \<Rightarrow> Inl UndefinedBehaviour
           | Some bs \<Rightarrow> Inr (h\<lparr>arrays := (arrays h)(a := None), released := released h @ [a]\<rparr>)))"

definition delete_unsigned_int :: "addr \<Rightarrow> heap \<Rightarrow> trap + heap" where
  "delete_unsigned_int a h =
     (case counters h a of
        None \<Rightarrow> Inl UndefinedBehaviour
      | Some v \<Rightarrow> Inr (h\<lparr>counters := (counters h)(a := None), released := released h @ [a]\<rparr>))"

text \<open>The bytes a pointer points to: those of its block, none for a null or dangling pointer.\<close>

definition bytes_at :: "addr option \<Rightarrow> heap \<Rightarrow> byte list" where
  "bytes_at p h = (case p of None \<Rightarrow> [] | Some a \<Rightarrow> (case arrays h a of None \<Rightarrow> [] | Some bs \<Rightarrow> bs))"

text \<open>
  \<^verbatim>\<open>memcpy(dst, src, n)\<close> and \<^verbatim>\<open>memset(dst, v, n)\<close>, the source given by the bytes it
  points to. A count of zero touches nothing; otherwise both ranges must lie in their
  blocks.
\<close>

definition memcpy :: "addr option \<Rightarrow> byte list \<Rightarrow> nat \<Rightarrow> heap \<Rightarrow> trap + heap" where
  "memcpy dst src n h =
     (if n = 0 then Inr h
      else case dst of
        None \<Rightarrow> Inl UndefinedBehaviour
      | Some a \<Rightarrow>
          (case arrays h a of
             None \<Rightarrow> Inl UndefinedBehaviour
           | Some bs \<Rightarrow>
               if n \<le> length bs \<and> n \<le> length src
               then Inr (h\<lparr>arrays := (arrays h)(a \<mapsto> take n src @ drop n bs)\<rparr>)
               else Inl UndefinedBehaviour))"

definition memset :: "addr option \<Rightarrow> byte \<Rightarrow> nat \<Rightarrow> heap \<Rightarrow> trap + heap" where
  "memset dst v n h =
     (if n = 0 then Inr h
      else case dst of
        None \<Rightarrow> Inl UndefinedBehaviour
      | Some a \<Rightarrow>
          (case arrays h a of
             None \<Rightarrow> Inl UndefinedBehaviour
           | Some bs \<Rightarrow>
               if n \<le> length bs
               then Inr (h\<lparr>arrays := (arrays h)(a \<mapsto> replicate n v @ drop n bs)\<rparr>)
               else Inl UndefinedBehaviour))"

text \<open>\<^verbatim>\<open>data[i]\<close> read and written, for an element of \<open>sz\<close> bytes.\<close>

definition read_element :: "nat \<Rightarrow> addr option \<Rightarrow> nat \<Rightarrow> heap \<Rightarrow> trap + byte list" where
  "read_element sz p i h =
     (case p of
        None \<Rightarrow> Inl UndefinedBehaviour
      | Some a \<Rightarrow>
          (case arrays h a of
             None \<Rightarrow> Inl UndefinedBehaviour
           | Some bs \<Rightarrow>
               if sz * i + sz \<le> length bs then Inr (take sz (drop (sz * i) bs))
               else Inl UndefinedBehaviour))"

definition write_element :: "nat \<Rightarrow> addr option \<Rightarrow> nat \<Rightarrow> byte list \<Rightarrow> heap \<Rightarrow> trap + heap" where
  "write_element sz p i v h =
     (case p of
        None \<Rightarrow> Inl UndefinedBehaviour
      | Some a \<Rightarrow>
          (case arrays h a of
             None \<Rightarrow> Inl UndefinedBehaviour
           | Some bs \<Rightarrow>
               if sz * i + sz \<le> length bs \<and> length v = sz
               then Inr (h\<lparr>arrays := (arrays h)(a \<mapsto> take (sz * i) bs @ v @ drop (sz * i + sz) bs)\<rparr>)
               else Inl UndefinedBehaviour))"

section \<open>Buffer\<close>

definition Buffer_default :: "addr \<Rightarrow> heap \<Rightarrow> heap" where
  "Buffer_default this h =
     h\<lparr>buffers := (buffers h)(this \<mapsto> \<lparr>Buffer.data = None, m_size = 0\<rparr>)\<rparr>"

text \<open>\<^verbatim>\<open>Buffer(size_t size)\<close>\<close>

definition Buffer_size :: "nat \<Rightarrow> addr \<Rightarrow> nat \<Rightarrow> heap \<Rightarrow> heap" where
  "Buffer_size sz this n h =
     (if n \<noteq> 0
      then (case new_array (sz * n) h of (a, h1) \<Rightarrow>
              h1\<lparr>buffers := (buffers h1)(this \<mapsto> \<lparr>Buffer.data = Some a, m_size = n\<rparr>)\<rparr>)
      else h\<lparr>buffers := (buffers h)(this \<mapsto> \<lparr>Buffer.data = None, m_size = n\<rparr>)\<rparr>)"

text \<open>\<^verbatim>\<open>Buffer(const T *t, size_t size)\<close>: copies \<^verbatim>\<open>sizeof(T) * size\<close> bytes.\<close>

definition Buffer_from :: "nat \<Rightarrow> addr \<Rightarrow> byte list \<Rightarrow> nat \<Rightarrow> heap \<Rightarrow> trap + heap" where
  "Buffer_from sz this t n h =
     (if n \<noteq> 0
      then (case new_array (sz * n) h of (a, h1) \<Rightarrow>
              and_then (memcpy (Some a) t (sz * n) h1) (\<lambda>h2.
                Inr (h2\<lparr>buffers := (buffers h2)(this \<mapsto> \<lparr>Buffer.data = Some a, m_size = n\<rparr>)\<rparr>)))
      else Inr (h\<lparr>buffers := (buffers h)(this \<mapsto> \<lparr>Buffer.data = None, m_size = n\<rparr>)\<rparr>))"

text \<open>\<^verbatim>\<open>Buffer(const Buffer &buffer)\<close> delegates to the constructor above.\<close>

definition Buffer_copy :: "nat \<Rightarrow> addr \<Rightarrow> addr \<Rightarrow> heap \<Rightarrow> trap + heap" where
  "Buffer_copy sz this buffer h =
     (case buffers h buffer of
        None \<Rightarrow> Inl UndefinedBehaviour
      | Some b \<Rightarrow> Buffer_from sz this (bytes_at (Buffer.data b) h) (Buffer.m_size b) h)"

text \<open>\<^verbatim>\<open>Buffer::drop\<close>: \<^verbatim>\<open>delete[] data; data = NULL\<close>.\<close>

definition Buffer_drop :: "addr \<Rightarrow> heap \<Rightarrow> trap + heap" where
  "Buffer_drop this h =
     (case buffers h this of
        None \<Rightarrow> Inl UndefinedBehaviour
      | Some b \<Rightarrow>
          and_then (delete_array (Buffer.data b) h) (\<lambda>h1.
            Inr (h1\<lparr>buffers := (buffers h1)(this \<mapsto> b\<lparr>Buffer.data := None\<rparr>)\<rparr>)))"

definition Buffer_destroy :: "addr \<Rightarrow> heap \<Rightarrow> trap + heap" where
  "Buffer_destroy this h =
     and_then (Buffer_drop this h) (\<lambda>h1. Inr (h1\<lparr>buffers := (buffers h1)(this := None)\<rparr>))"

definition Buffer_resize :: "nat \<Rightarrow> addr \<Rightarrow> nat \<Rightarrow> heap \<Rightarrow> trap + heap" where
  "Buffer_resize sz this n h =
     (case buffers h this of
        None \<Rightarrow> Inl UndefinedBehaviour
      | Some b \<Rightarrow>
          if n = Buffer.m_size b then Inr h
          else
            and_then (if Buffer.m_size b \<noteq> 0 then Buffer_drop this h else Inr h) (\<lambda>h1.
              case buffers h1 this of
                None \<Rightarrow> Inl UndefinedBehaviour
              | Some b1 \<Rightarrow>
                  if n \<noteq> 0
                  then (case new_array (sz * n) h1 of (a, h2) \<Rightarrow>
                          Inr (h2\<lparr>buffers := (buffers h2)(this \<mapsto> \<lparr>Buffer.data = Some a, m_size = n\<rparr>)\<rparr>))
                  else Inr (h1\<lparr>buffers := (buffers h1)(this \<mapsto> b1\<lparr>Buffer.m_size := n\<rparr>)\<rparr>)))"

text \<open>\<^verbatim>\<open>operator=\<close>: the \<^verbatim>\<open>memcpy\<close> is given \<^verbatim>\<open>buffer.m_size\<close> as its byte count.\<close>

definition Buffer_assign :: "nat \<Rightarrow> addr \<Rightarrow> addr \<Rightarrow> heap \<Rightarrow> trap + heap" where
  "Buffer_assign sz this buffer h =
     (if this \<noteq> buffer
      then (case buffers h buffer of
              None \<Rightarrow> Inl UndefinedBehaviour
            | Some b \<Rightarrow>
                and_then (Buffer_resize sz this (Buffer.m_size b) h) (\<lambda>h1.
                  case buffers h1 this of
                    None \<Rightarrow> Inl UndefinedBehaviour
                  | Some t \<Rightarrow> memcpy (Buffer.data t) (bytes_at (Buffer.data b) h1) (Buffer.m_size b) h1))
      else Inr h)"

text \<open>\<^verbatim>\<open>operator[]\<close> of Buffer is unchecked; it yields a reference, read or written.\<close>

definition Buffer_index :: "nat \<Rightarrow> addr \<Rightarrow> nat \<Rightarrow> heap \<Rightarrow> trap + byte list" where
  "Buffer_index sz this i h =
     (case buffers h this of
        None \<Rightarrow> Inl UndefinedBehaviour
      | Some b \<Rightarrow> read_element sz (Buffer.data b) i h)"

definition Buffer_index_assign :: "nat \<Rightarrow> addr \<Rightarrow> nat \<Rightarrow> byte list \<Rightarrow> heap \<Rightarrow> trap + heap" where
  "Buffer_index_assign sz this i v h =
     (case buffers h this of
        None \<Rightarrow> Inl UndefinedBehaviour
      | Some b \<Rightarrow> write_element sz (Buffer.data b) i v h)"

section \<open>SharedBuffer\<close>

text \<open>
  Modelled from the spec: \<^verbatim>\<open>assert\<close> comes from debug.h, which is not among the
  sources; the spec has the check trap on a false condition.
\<close>

definition assert :: "bool \<Rightarrow> trap + unit" where
  "assert b = (if b then Inr () else Inl AssertionFailed)"

definition SharedBuffer_default :: "addr \<Rightarrow> heap \<Rightarrow> heap" where
  "SharedBuffer_default this h =
     (case new_unsigned_int h of (r, h1) \<Rightarrow>
        h1\<lparr>counters := (counters h1)(r \<mapsto> 1),
           shared_buffers := (shared_buffers h1)(this \<mapsto>
             \<lparr>SharedBuffer.data = None, m_size = 0, refcount = r\<rparr>)\<rparr>)"

text \<open>\<^verbatim>\<open>SharedBuffer(unsigned int size)\<close>\<close>

definition SharedBuffer_size :: "nat \<Rightarrow> addr \<Rightarrow> 32 word \<Rightarrow> heap \<Rightarrow> trap + heap" where
  "SharedBuffer_size sz this n h =
     (case (if n \<noteq> 0
            then (case new_array (sz * unat n) h of (a, h1) \<Rightarrow> (Some a, h1))
            else (None, h)) of (d, h1) \<Rightarrow>
        (case new_unsigned_int h1 of (r, h2) \<Rightarrow>
           and_then (memset d 0 (sz * unat n) h2) (\<lambda>h3.
             Inr (h3\<lparr>counters := (counters h3)(r \<mapsto> 1),
                     shared_buffers := (shared_buffers h3)(this \<mapsto>
                       \<lparr>SharedBuffer.data = d, m_size = n, refcount = r\<rparr>)\<rparr>))))"

text \<open>\<^verbatim>\<open>(*refcount)++\<close> on a 32-bit counter.\<close>

definition increment :: "addr \<Rightarrow> heap \<Rightarrow> trap + heap" where
  "increment r h =
     (case counters h r of
        None \<Rightarrow> Inl UndefinedBehaviour
      | Some v \<Rightarrow> Inr (h\<lparr>counters := (counters h)(r \<mapsto> v + 1)\<rparr>))"

text \<open>\<^verbatim>\<open>SharedBuffer(const SharedBuffer &buffer)\<close>\<close>

definition SharedBuffer_copy :: "addr \<Rightarrow> addr \<Rightarrow> heap \<Rightarrow> trap + heap" where
  "SharedBuffer_copy this buffer h =
     (case shared_buffers h buffer of
        None \<Rightarrow> Inl UndefinedBehaviour
      | Some b \<Rightarrow>
          increment (refcount b) (h\<lparr>shared_buffers := (shared_buffers h)(this \<mapsto> b)\<rparr>))"

text \<open>\<^verbatim>\<open>SharedBuffer::drop\<close>\<close>

definition SharedBuffer_drop :: "addr \<Rightarrow> heap \<Rightarrow> trap + heap" where
  "SharedBuffer_drop this h =
     (case shared_buffers h this of
        None \<Rightarrow> Inl UndefinedBehaviour
      | Some b \<Rightarrow>
          (case counters h (refcount b) of
             None \<Rightarrow> Inl UndefinedBehaviour
           | Some v \<Rightarrow>
               and_then (assert (v > 0)) (\<lambda>u.
                 let h1 = h\<lparr>counters := (counters h)(refcount b \<mapsto> v - 1)\<rparr>
                 in if v - 1 = 0
                    then and_then (delete_array (SharedBuffer.data b) h1)
                           (delete_unsigned_int (refcount b))
                    else Inr h1)))"

text \<open>\<^verbatim>\<open>operator=\<close>\<close>

definition SharedBuffer_assign :: "addr \<Rightarrow> addr \<Rightarrow> heap \<Rightarrow> trap + heap" where
  "SharedBuffer_assign this buffer h =
     (if this = buffer then Inr h
      else
        and_then (SharedBuffer_drop this h) (\<lambda>h1.
          case shared_buffers h1 buffer of
            None \<Rightarrow> Inl UndefinedBehaviour
          | Some b \<Rightarrow>
              increment (refcount b) (h1\<lparr>shared_buffers := (shared_buffers h1)(this \<mapsto> b)\<rparr>)))"

text \<open>\<^verbatim>\<open>SharedBuffer(const T *t, unsigned int size)\<close>: the \<^verbatim>\<open>memcpy\<close> is given \<^verbatim>\<open>m_size\<close> as its byte count.\<close>

definition SharedBuffer_from :: "nat \<Rightarrow> addr \<Rightarrow> byte list \<Rightarrow> 32 word \<Rightarrow> heap \<Rightarrow> trap + heap" where
  "SharedBuffer_from sz this t n h =
     and_then
       (if n \<noteq> 0
        then (case new_array (sz * unat n) h of (a, h1) \<Rightarrow>
                and_then (memcpy (Some a) t (unat n) h1) (\<lambda>h2. Inr (Some a, h2)))
        else Inr (None, h))
       (\<lambda>(d, h2).
          case new_unsigned_int h2 of (r, h3) \<Rightarrow>
            Inr (h3\<lparr>counters := (counters h3)(r \<mapsto> 1),
                    shared_buffers := (shared_buffers h3)(this \<mapsto>
                      \<lparr>SharedBuffer.data = d, m_size = n, refcount = r\<rparr>)\<rparr>))"

text \<open>
  \<^verbatim>\<open>SharedBuffer(const Buffer<T> &buffer)\<close>: \<^verbatim>\<open>m_size = buffer.getSize()\<close> narrows a
  \<^verbatim>\<open>size_t\<close> to 32 bits, and the \<^verbatim>\<open>memcpy\<close> is given \<^verbatim>\<open>buffer.getSize()\<close> as its
  byte count.
\<close>

definition SharedBuffer_from_Buffer :: "nat \<Rightarrow> addr \<Rightarrow> addr \<Rightarrow> heap \<Rightarrow> trap + heap" where
  "SharedBuffer_from_Buffer sz this buffer h =
     (case buffers h buffer of
        None \<Rightarrow> Inl UndefinedBehaviour
      | Some b \<Rightarrow>
          let n = (word_of_nat (Buffer.m_size b) :: 32 word)
          in and_then
               (if n \<noteq> 0
                then (case new_array (sz * unat n) h of (a, h1) \<Rightarrow>
                        and_then (memcpy (Some a) (bytes_at (Buffer.data b) h1) (Buffer.m_size b) h1)
                          (\<lambda>h2. Inr (Some a, h2)))
                else Inr (None, h))
               (\<lambda>(d, h2).
                  case new_unsigned_int h2 of (r, h3) \<Rightarrow>
                    Inr (h3\<lparr>counters := (counters h3)(r \<mapsto> 1),
                            shared_buffers := (shared_buffers h3)(this \<mapsto>
                              \<lparr>SharedBuffer.data = d, m_size = n, refcount = r\<rparr>)\<rparr>)))"

text \<open>The destructor: \<^verbatim>\<open>drop()\<close>, after which the object is gone.\<close>

definition SharedBuffer_destroy :: "addr \<Rightarrow> heap \<Rightarrow> trap + heap" where
  "SharedBuffer_destroy this h =
     and_then (SharedBuffer_drop this h) (\<lambda>h1.
       Inr (h1\<lparr>shared_buffers := (shared_buffers h1)(this := None)\<rparr>))"

text \<open>\<^verbatim>\<open>operator[]\<close>: the assertion, then the reference \<^verbatim>\<open>data[i]\<close>, read or written.\<close>

definition SharedBuffer_index :: "nat \<Rightarrow> addr \<Rightarrow> 32 word \<Rightarrow> heap \<Rightarrow> trap + byte list" where
  "SharedBuffer_index sz this i h =
     (case shared_buffers h this of
        None \<Rightarrow> Inl UndefinedBehaviour
      | Some b \<Rightarrow>
          and_then (assert (i < SharedBuffer.m_size b)) (\<lambda>u.
            read_element sz (SharedBuffer.data b) (unat i) h))"

definition SharedBuffer_index_assign :: "nat \<Rightarrow> addr \<Rightarrow> 32 word \<Rightarrow> byte list \<Rightarrow> heap \<Rightarrow> trap + heap" where
  "SharedBuffer_index_assign sz this i v h =
     (case shared_buffers h this of
        None \<Rightarrow> Inl UndefinedBehaviour
      | Some b \<Rightarrow>
          and_then (assert (i < SharedBuffer.m_size b)) (\<lambda>u.
            write_element sz (SharedBuffer.data b) (unat i) v h))"

definition SharedBuffer_getSize :: "addr \<Rightarrow> heap \<Rightarrow> trap + 32 word" where
  "SharedBuffer_getSize this h =
     (case shared_buffers h this of
        None \<Rightarrow> Inl UndefinedBehaviour
      | Some b \<Rightarrow> Inr (SharedBuffer.m_size b))"

section \<open>What the claims about the buffers speak of\<close>

text \<open>
  The storage of a buffer object is in place: a null pointer goes with size 0, and any
  other pointer with a live block of \<open>sz * m_size\<close> bytes (for a Buffer, one the allocator
  has handed out).
\<close>

definition shared_ok :: "nat \<Rightarrow> heap \<Rightarrow> SharedBuffer \<Rightarrow> bool" where
  "shared_ok sz h b \<longleftrightarrow>
     (case SharedBuffer.data b of
        None \<Rightarrow> SharedBuffer.m_size b = 0
      | Some a \<Rightarrow>
          SharedBuffer.m_size b \<noteq> 0 \<and>
          (case arrays h a of
             None \<Rightarrow> False
           | Some bs \<Rightarrow> length bs = sz * unat (SharedBuffer.m_size b)))"

definition buffer_ok :: "nat \<Rightarrow> heap \<Rightarrow> Buffer \<Rightarrow> bool" where
  "buffer_ok sz h b \<longleftrightarrow>
     (case Buffer.data b of
        None \<Rightarrow> Buffer.m_size b = 0
      | Some a \<Rightarrow>
          Buffer.m_size b \<noteq> 0 \<and> a < fresh h \<and>
          (case arrays h a of
             None \<Rightarrow> False
           | Some bs \<Rightarrow> length bs = sz * Buffer.m_size b))"

datatype how = CopyConstruct | CopyAssign

text \<open>
  One more holder of the storage of \<open>buffer\<close>, at the address \<open>this\<close>: by the copy
  constructor, or by assignment to a SharedBuffer that was default-constructed there.
\<close>

fun make_copy :: "how \<Rightarrow> addr \<Rightarrow> addr \<Rightarrow> heap \<Rightarrow> trap + heap" where
  "make_copy CopyConstruct this buffer h = SharedBuffer_copy this buffer h"
| "make_copy CopyAssign this buffer h = SharedBuffer_assign this buffer (SharedBuffer_default this h)"

fun make_copies :: "(how \<times> addr) list \<Rightarrow> addr \<Rightarrow> heap \<Rightarrow> trap + heap" where
  "make_copies [] buffer h = Inr h"
| "make_copies ((w, this) # rest) buffer h =
     and_then (make_copy w this buffer h) (make_copies rest buffer)"

text \<open>
  Destroying the objects at the given addresses, in that order.
\<close>

fun destroy_all :: "addr list \<Rightarrow> heap \<Rightarrow> trap + heap" where
  "destroy_all [] h = Inr h"
| "destroy_all (this # rest) h = and_then (SharedBuffer_destroy this h) (destroy_all rest)"

text \<open>
  The objects at the addresses \<open>S\<close> are the holders of the storage of \<open>b\<close>: each has the
  fields of \<open>b\<close>, the counter counts them, and the block and the counter are live and were
  never released.
\<close>

definition holders :: "heap \<Rightarrow> SharedBuffer \<Rightarrow> addr set \<Rightarrow> bool" where
  "holders h b S \<longleftrightarrow>
     finite S \<and> (\<forall>x\<in>S. shared_buffers h x = Some b) \<and>
     counters h (refcount b) = Some (of_nat (card S)) \<and> card S < 2 ^ 32 \<and>
     refcount b < fresh h \<and> refcount b \<notin> set (released h) \<and>
     SharedBuffer.data b \<noteq> Some (refcount b) \<and>
     (case SharedBuffer.data b of
        None \<Rightarrow> True
      | Some a \<Rightarrow> arrays h a \<noteq> None \<and> a < fresh h \<and> a \<notin> set (released h))"

text \<open>
  The object at \<open>buffer\<close> is the only holder of its storage.
\<close>

definition sole_holder :: "heap \<Rightarrow> addr \<Rightarrow> SharedBuffer \<Rightarrow> bool" where
  "sole_holder h buffer b \<longleftrightarrow>
     shared_buffers h buffer = Some b \<and> counters h (refcount b) = Some 1 \<and>
     refcount b < fresh h \<and> refcount b \<notin> set (released h) \<and>
     SharedBuffer.data b \<noteq> Some (refcount b) \<and>
     (case SharedBuffer.data b of
        None \<Rightarrow> True
      | Some a \<Rightarrow> arrays h a \<noteq> None \<and> a < fresh h \<and> a \<notin> set (released h))"

subsection \<open>Concrete heaps and inputs\<close>

text \<open>
  A heap with nothing in it, whose new memory holds the byte \<open>0xCD\<close>.
\<close>

definition empty_heap :: heap where
  "empty_heap =
     \<lparr>arrays = Map.empty, counters = Map.empty, fresh = 1, garbage = (\<lambda>a i. 0xCD),
      released = [], buffers = Map.empty, shared_buffers = Map.empty\<rparr>"

text \<open>
  A SharedBuffer of three two-byte elements at address 7.
\<close>

definition sample_shared :: SharedBuffer where
  "sample_shared = \<lparr>SharedBuffer.data = Some 1, m_size = 3, refcount = 2\<rparr>"

definition sample_heap :: heap where
  "sample_heap =
     empty_heap\<lparr>arrays := [1 \<mapsto> [1, 0, 2, 0, 3, 0]], counters := [2 \<mapsto> 1], fresh := 3,
                shared_buffers := [7 \<mapsto> sample_shared]\<rparr>"

text \<open>
  Two two-byte elements, \<open>0x0101\<close> and \<open>0x0202\<close>.
\<close>

definition two_shorts :: "byte list" where
  "two_shorts = [1, 1, 2, 2]"

text \<open>
  A Buffer of two two-byte elements at address 5, and one of a single element at address 6.
\<close>

definition two_buffers :: heap where
  "two_buffers =
     empty_heap\<lparr>arrays := [1 \<mapsto> [1, 1, 2, 2], 2 \<mapsto> [7, 7]], fresh := 3,
                buffers := [5 \<mapsto> \<lparr>Buffer.data = Some 1, m_size = 2\<rparr>,
                            6 \<mapsto> \<lparr>Buffer.data = Some 2, m_size = 1\<rparr>]\<rparr>"

text \<open>
  A SharedBuffer of one byte at address 10, the only holder of its storage, and
  \<open>2^32 - 1\<close> copy constructions from it.
\<close>

definition one_shared :: heap where
  "one_shared =
     empty_heap\<lparr>arrays := [1 \<mapsto> [0]], counters := [2 \<mapsto> 1], fresh := 3,
                shared_buffers := [10 \<mapsto> \<lparr>SharedBuffer.data = Some 1, m_size = 1, refcount = 2\<rparr>]\<rparr>"

definition many_copies :: "(how \<times> addr) list" where
  "many_copies = map (Pair CopyConstruct) [11..<11 + (2 ^ 32 - 1)]"

section \<open>Decimal text round trip\<close>

lemma isdigit_digit_char: "d < 10 \<Longrightarrow> isdigit (digit_char d)"
  by (simp add: isdigit_def digit_char_def)

lemma digit_val_digit_char: "d < 10 \<Longrightarrow> digit_val (digit_char d) = d"
  by (simp add: digit_val_def digit_char_def)

lemma decimal_nat_digits: "\<forall>c \<in> set (decimal_nat n). isdigit c"
proof (induction n rule: decimal_nat.induct)
  case (1 n)
  show ?case
  proof (cases "n < 10")
    case True
    then show ?thesis by (subst decimal_nat.simps) (simp add: isdigit_digit_char)
  next
    case False
    with 1 have "\<forall>c \<in> set (decimal_nat (n div 10)). isdigit c" by simp
    moreover have "isdigit (digit_char (n mod 10))" by (simp add: isdigit_digit_char)
    ultimately show ?thesis using False by (subst decimal_nat.simps) auto
  qed
qed

lemma decimal_nat_not_Nil: "decimal_nat n \<noteq> []"
  by (subst decimal_nat.simps) simp

lemma foldl_decimal_nat:
  "foldl (\<lambda>a c. 10 * a + digit_val c) 0 (decimal_nat n) = n"
proof (induction n rule: decimal_nat.induct)
  case (1 n)
  show ?case
  proof (cases "n < 10")
    case True
    then show ?thesis by (subst decimal_nat.simps) (simp add: digit_val_digit_char)
  next
    case False
    with 1 have "foldl (\<lambda>a c. 10 * a + digit_val c) 0 (decimal_nat (n div 10)) = n div 10"
      by simp
    then show ?thesis using False
      by (subst decimal_nat.simps) (simp add: digit_val_digit_char)
  qed
qed

lemma digits_value_decimal_nat: "digits_value (decimal_nat n) = n"
proof -
  have "takeWhile isdigit (decimal_nat n) = decimal_nat n"
    unfolding takeWhile_eq_all_conv using decimal_nat_digits [of n] by blast
  then show ?thesis
    unfolding digits_value_def by (simp only: foldl_decimal_nat)
qed

lemma isdigit_not_space: "isdigit c \<Longrightarrow> \<not> isspace c"
  by (auto simp: isdigit_def isspace_def)

lemma isdigit_not_sign: "isdigit c \<Longrightarrow> c \<noteq> CHR ''-'' \<and> c \<noteq> CHR ''+''"
  by (auto simp: isdigit_def)

lemma atoi_decimal_nat: "atoi (decimal_nat n) = int n"
proof -
  obtain c cs where eq: "decimal_nat n = c # cs"
    using decimal_nat_not_Nil [of n] by (cases "decimal_nat n") auto
  have d: "isdigit c" using decimal_nat_digits [of n] eq by simp
  have "dropWhile isspace (c # cs) = c # cs"
    using isdigit_not_space [OF d] by simp
  then have "atoi (c # cs) = int (digits_value (c # cs))"
    using isdigit_not_sign [OF d] by (simp add: atoi_def)
  then show ?thesis using digits_value_decimal_nat [of n] eq by simp
qed

lemma atoi_itos: "atoi (itos i) = i"
proof (cases "i < 0")
  case True
  have "\<not> isspace CHR ''-''" by (simp add: isspace_def)
  then have "atoi (CHR ''-'' # decimal_nat (nat (- i))) = - int (digits_value (decimal_nat (nat (- i))))"
    by (simp add: atoi_def)
  then show ?thesis using True by (simp add: itos_def digits_value_decimal_nat)
next
  case False
  then show ?thesis by (simp add: itos_def atoi_decimal_nat)
qed

section \<open>The backend on a ready session\<close>

lemma sint_s16_range: "- (2 ^ 31) \<le> sint (x :: 16 word) \<and> sint x < 2 ^ 31"
proof -
  have "- (2 ^ 15) \<le> sint x" "sint x < 2 ^ 15"
    using sint_ge [of x] sint_lt [of x] by simp_all
  then show ?thesis by simp
qed

lemma int4in_itos: "- (2 ^ 31) \<le> v \<Longrightarrow> v < 2 ^ 31 \<Longrightarrow> int4in (itos v) = Some v"
  by (simp add: int4in_def atoi_itos)

lemma int4in_s16: "int4in (itos (sint (x :: 16 word))) = Some (sint x)"
  using sint_s16_range [of x] by (simp add: int4in_itos)

lemma key_params_BIND_POS: "key_params (map Text (BIND_POS pos) @ ps) = Some (key_of pos, ps)"
  by (simp add: BIND_POS_def key_of_def int4in_s16)

lemma key_params_BIND_POS_only: "key_params (map Text (BIND_POS pos)) = Some (key_of pos, [])"
  using key_params_BIND_POS [of pos "[]"] by simp

lemma int_of_size_small: "n < 2 ^ 31 \<Longrightarrow> int_of_size n = int n"
  unfolding int_of_size_def
  by (simp add: signed_of_nat signed_take_bit_int_eq_self)

lemma s16_key_key_of: "s16_key (key_of pos)"
proof -
  have "in_s16 (sint (x :: 16 word))" for x
    using sint_ge [of x] sint_lt [of x] by (simp add: in_s16_def)
  then show ?thesis by (simp add: s16_key_def key_of_def)
qed

lemma pos_of_key_of: "pos_of (key_of pos) = pos"
  by (simp add: pos_of_def key_of_def)

lemma key_of_pos_of: "s16_key k \<Longrightarrow> key_of (pos_of k) = k"
  by (auto simp: s16_key_def in_s16_def pos_of_def key_of_def sint_sbintrunc' signed_take_bit_int_eq_self split: prod.splits)

lemma request_answering:
  "answering c \<Longrightarrow> request run c = (case run (answered c) of (r, c'') \<Rightarrow> (Some r, c''))"
  by (cases "responses c") (auto simp: request_def answering_def next_response_def answered_def)

lemma answering_answered: "answering c \<Longrightarrow> answering (answered c)"
  by (cases "responses c") (simp_all add: answering_def answered_def)

lemma request_ready:
  "ready c \<Longrightarrow> request run c = (case run (answered c) of (r, c'') \<Rightarrow> (Some r, c''))"
  by (simp add: ready_def request_answering)

lemma PG_RES_command_ok [simp]: "PG_RES (Some command_ok) PGRES_COMMAND_OK = Inr command_ok"
  by (simp add: PG_RES_def command_ok_def)

lemma PG_RES_tuples_ok [simp]: "PG_RES (Some (tuples_ok ts)) PGRES_TUPLES_OK = Inr (tuples_ok ts)"
  by (simp add: PG_RES_def tuples_ok_def)

lemma tuples_tuples_ok [simp]: "tuples (tuples_ok ts) = ts"
  by (simp add: tuples_ok_def)

lemma relation_answered [simp]: "relation (answered c) = relation c"
  by (simp add: answered_def)

lemma prepared_answered [simp]: "prepared (answered c) = prepared c"
  by (simp add: answered_def)

lemma ready_relation: "ready c \<Longrightarrow> relation c = Some (table_of c)"
  by (auto simp: ready_def table_of_def)

lemma saveBlock_ready:
  assumes "ready c" and "0 \<le> int_of_size (length d)"
  shows "saveBlock pos d c =
    (Inr True, (answered c)\<lparr>relation :=
       Some (upsert (key_of pos) (take (nat (int_of_size (length d))) d) (table_of c))\<rparr>)"
proof -
  have p: "map_of (prepared c) ''save'' = Some Q_save" using assms(1) by (simp add: ready_def)
  show ?thesis
    using assms(2)
    by (simp add: saveBlock_def PG_OK_FREE_def PQexecPrepared_def request_ready [OF assms(1)] p
        ready_relation [OF assms(1)] key_params_BIND_POS)
qed

lemma saveBlock_ready_small:
  assumes "ready c" and "length d < 2 ^ 31"
  shows "saveBlock pos d c =
    (Inr True, (answered c)\<lparr>relation := Some (upsert (key_of pos) d (table_of c))\<rparr>)"
  using saveBlock_ready [OF assms(1), of d pos] assms(2) by (simp add: int_of_size_small)

lemma saveBlock_ready_negative:
  assumes "ready c" and "int_of_size (length d) < 0"
  shows "\<exists>e. saveBlock pos d c = (Inl e, answered c)"
proof -
  have p: "map_of (prepared c) ''save'' = Some Q_save" using assms(1) by (simp add: ready_def)
  show ?thesis
    using assms(2)
    by (simp add: saveBlock_def PG_OK_FREE_def PQexecPrepared_def request_ready [OF assms(1)] p
        ready_relation [OF assms(1)] key_params_BIND_POS PG_RES_def fatal_error_def)
qed

lemma loadBlock_ready:
  assumes "ready c"
  shows "loadBlock pos c = (Inr (first_data (key_of pos) (table_of c)), answered c)"
proof -
  have p: "map_of (prepared c) ''load'' = Some Q_load" using assms(1) by (simp add: ready_def)
  have a: "(answered c)\<lparr>relation := Some (table_of c)\<rparr> = answered c"
    using ready_relation [OF assms] by (simp add: answered_def)
  show ?thesis
    by (simp add: loadBlock_def PQexecPrepared_def request_ready [OF assms(1)] p a
        ready_relation [OF assms(1)] key_params_BIND_POS_only PQntuples_def PQgetvalue_def
        select_data_def first_data_def split: list.splits)
qed

lemma deleteBlock_ready:
  assumes "ready c"
  shows "deleteBlock pos c =
    (Inr True, (answered c)\<lparr>relation := Some (delete_rows (key_of pos) (table_of c))\<rparr>)"
proof -
  have p: "map_of (prepared c) ''delete'' = Some Q_delete" using assms(1) by (simp add: ready_def)
  show ?thesis
    by (simp add: deleteBlock_def PG_OK_FREE_def PQexecPrepared_def request_ready [OF assms(1)] p
        ready_relation [OF assms(1)] key_params_BIND_POS_only)
qed

subsection \<open>Table lemmas\<close>

lemma map_fst_upsert_present:
  "filter (\<lambda>r. fst r = k) t \<noteq> [] \<Longrightarrow> map fst (upsert k d t) = map fst t"
  by (simp add: upsert_def)

lemma map_fst_upsert_absent:
  "filter (\<lambda>r. fst r = k) t = [] \<Longrightarrow> map fst (upsert k d t) = map fst t @ [k]"
  by (simp add: upsert_def)

lemma filter_key_empty: "filter (\<lambda>r. fst r = k) t = [] \<longleftrightarrow> k \<notin> set (map fst t)"
  by (auto simp: filter_empty_conv)

lemma set_keys_upsert: "set (map fst (upsert k d t)) = insert k (set (map fst t))"
proof (cases "filter (\<lambda>r. fst r = k) t = []")
  case True
  then show ?thesis by (simp add: map_fst_upsert_absent)
next
  case False
  then have "k \<in> set (map fst t)" by (simp add: filter_key_empty)
  then show ?thesis using False by (auto simp: map_fst_upsert_present simp del: set_map)
qed

lemma distinct_keys_upsert: "distinct (map fst t) \<Longrightarrow> distinct (map fst (upsert k d t))"
proof (cases "filter (\<lambda>r. fst r = k) t = []")
  case True
  assume "distinct (map fst t)"
  then show ?thesis using True by (simp add: map_fst_upsert_absent filter_key_empty)
next
  case False
  assume "distinct (map fst t)"
  then show ?thesis using False by (simp add: map_fst_upsert_present)
qed

lemma s16_keys_upsert:
  "s16_key k \<Longrightarrow> list_all (\<lambda>r. s16_key (fst r)) t \<Longrightarrow> list_all (\<lambda>r. s16_key (fst r)) (upsert k d t)"
  by (auto simp: upsert_def list_all_iff)

lemma first_data_upsert: "first_data k (upsert k d t) = d"
proof (cases "filter (\<lambda>r. fst r = k) t")
  case Nil
  then show ?thesis by (simp add: upsert_def first_data_def)
next
  case (Cons r rs)
  have "filter (\<lambda>r. fst r = k) (map (\<lambda>r. if fst r = k then (fst r, Some d) else r) t)
      = map (\<lambda>r. (fst r, Some d)) (filter (\<lambda>r. fst r = k) t)"
    by (induction t) auto
  then show ?thesis using Cons by (simp add: upsert_def first_data_def)
qed

lemma first_data_delete_rows: "first_data k (delete_rows k t) = []"
proof -
  have "filter (\<lambda>r. fst r = k) (filter (\<lambda>r. fst r \<noteq> k) t) = []"
    by (induction t) auto
  then show ?thesis by (simp add: delete_rows_def first_data_def)
qed

lemma first_data_absent: "k \<notin> set (map fst t) \<Longrightarrow> first_data k t = []"
  using filter_key_empty [of k t] by (simp add: first_data_def)

lemma count_rows_upsert:
  "distinct (map fst t) \<Longrightarrow> length (filter (\<lambda>r. fst r = k) (upsert k d t)) = 1"
proof -
  assume "distinct (map fst t)"
  then have d: "distinct (map fst (upsert k d t))" by (rule distinct_keys_upsert)
  have m: "k \<in> set (map fst (upsert k d t))" by (simp add: set_keys_upsert del: set_map)
  have "length (filter (\<lambda>r. fst r = k) u) = 1"
    if "distinct (map fst u)" and "k \<in> set (map fst u)" for u :: "row list"
    using that by (induction u) (auto simp: filter_empty_conv image_iff)
  from this [OF d m] show ?thesis .
qed

subsection \<open>Sessions stay ready\<close>

lemma table_of_relation [simp]: "table_of (c\<lparr>relation := Some t\<rparr>) = t"
  by (simp add: table_of_def)

lemma ready_answered_relation:
  assumes "ready c" and "distinct (map fst t)" and "list_all (\<lambda>r. s16_key (fst r)) t"
  shows "ready ((answered c)\<lparr>relation := Some t\<rparr>)"
proof -
  have "answering (answered c)"
    using assms(1) by (simp add: ready_def answering_answered)
  then have "answering ((answered c)\<lparr>relation := Some t\<rparr>)"
    by (simp add: answering_def)
  then show ?thesis using assms by (simp add: ready_def)
qed

lemma ready_answered: "ready c \<Longrightarrow> ready (answered c)"
proof -
  assume r: "ready c"
  have "(answered c)\<lparr>relation := Some (table_of c)\<rparr> = answered c"
    using ready_relation [OF r] by (simp add: answered_def)
  moreover have "ready ((answered c)\<lparr>relation := Some (table_of c)\<rparr>)"
    using r by (intro ready_answered_relation) (simp_all add: ready_def)
  ultimately show ?thesis by simp
qed

lemma ready_upsert:
  "ready c \<Longrightarrow> ready ((answered c)\<lparr>relation := Some (upsert (key_of pos) d (table_of c))\<rparr>)"
  by (intro ready_answered_relation distinct_keys_upsert s16_keys_upsert s16_key_key_of)
     (simp_all add: ready_def)

lemma ready_delete_rows:
  "ready c \<Longrightarrow> ready ((answered c)\<lparr>relation := Some (delete_rows (key_of pos) (table_of c))\<rparr>)"
  by (intro ready_answered_relation) (simp_all add: ready_def delete_rows_def distinct_map_filter list_all_iff)

lemma saveBlock_cases:
  assumes "ready c"
  shows "(\<exists>e. saveBlock pos d c = (Inl e, answered c)) \<or>
         (\<exists>d'. saveBlock pos d c =
            (Inr True, (answered c)\<lparr>relation := Some (upsert (key_of pos) d' (table_of c))\<rparr>))"
proof (cases "0 \<le> int_of_size (length d)")
  case True
  from saveBlock_ready [OF assms True] show ?thesis by blast
next
  case False
  then have "int_of_size (length d) < 0" by simp
  from saveBlock_ready_negative [OF assms this] show ?thesis by blast
qed

subsection \<open>Listing\<close>

lemma push_rows_eq: "push_rows res i rows dst = dst @ map (row_pos res) [i..<rows]"
proof (induction res i rows dst rule: push_rows.induct)
  case (1 res i rows dst)
  show ?case
  proof (cases "i < rows")
    case True
    with 1 show ?thesis
      by (subst push_rows.simps) (simp add: upt_conv_Cons row_pos_def)
  next
    case False
    then show ?thesis by (subst push_rows.simps) simp
  qed
qed

lemma row_pos_select_xyz:
  assumes "i < length t"
  shows "row_pos (tuples_ok (select_xyz t)) i = pos_of (fst (t ! i))"
  using assms
  by (simp add: row_pos_def PQgetvalue_def select_xyz_def pos_of_def int4out_def atoi_itos
      split: prod.splits)

lemma rows_select_xyz:
  "map (row_pos (tuples_ok (select_xyz t))) [0..<length t] = map pos_of (map fst t)"
  by (rule nth_equalityI) (simp_all add: row_pos_select_xyz)

lemma length_select_xyz [simp]: "length (select_xyz t) = length t"
  by (simp add: select_xyz_def)

lemma listAllLoadableBlocks_ready:
  assumes "ready c"
  shows "listAllLoadableBlocks dst c = (Inr (dst @ map pos_of (map fst (table_of c))), answered c)"
proof -
  have p: "map_of (prepared c) ''list'' = Some Q_list" using assms(1) by (simp add: ready_def)
  have a: "(answered c)\<lparr>relation := Some (table_of c)\<rparr> = answered c"
    using ready_relation [OF assms] by (simp add: answered_def)
  show ?thesis
    by (simp add: listAllLoadableBlocks_def PQexecPrepared_def request_ready [OF assms(1)] p a
        ready_relation [OF assms(1)] PQntuples_def push_rows_eq rows_select_xyz)
qed

lemma inj_on_pos_of: "inj_on pos_of {k. s16_key k}"
  by (rule inj_on_inverseI [where g = key_of]) (simp add: key_of_pos_of)

lemma distinct_listed:
  assumes "distinct ks" and "list_all s16_key ks"
  shows "distinct (map pos_of ks)"
proof -
  have "set ks \<subseteq> {k. s16_key k}" using assms(2) by (auto simp: list_all_iff)
  then have "inj_on pos_of (set ks)" by (rule inj_on_subset [OF inj_on_pos_of])
  then show ?thesis using assms(1) by (simp add: distinct_map)
qed

lemma ready_listed_distinct: "ready c \<Longrightarrow> distinct (map pos_of (map fst (table_of c)))"
  by (rule distinct_listed) (simp_all add: ready_def list_all_iff)

subsection \<open>Opening\<close>

lemma PREPARE_STATEMENT_answering:
  assumes "answering c" and "map_of (prepared c) name = None"
  shows "PREPARE_STATEMENT name q c = (Inr (), (answered c)\<lparr>prepared := (name, q) # prepared c\<rparr>)"
  using assms(2)
  by (simp add: PREPARE_STATEMENT_def PG_OK_FREE_def PQprepare_def request_answering [OF assms(1)])

lemma create_table_answering:
  assumes "answering c"
  shows "PG_OK_FREE (PQexec Q_create_table) c = (Inr (), (answered c)\<lparr>relation := Some (table_of c)\<rparr>)"
  by (simp add: PG_OK_FREE_def PQexec_def request_answering [OF assms(1)] table_of_def)

lemma table_of_prepared [simp]: "table_of (c\<lparr>prepared := ps\<rparr>) = table_of c"
  by (simp add: table_of_def)

lemma answering_upd [simp]:
  "answering (c\<lparr>prepared := ps\<rparr>) = answering c"
  "answering (c\<lparr>relation := rel\<rparr>) = answering c"
  by (simp_all add: answering_def)

lemma answered_upd [simp]:
  "answered (c\<lparr>prepared := ps\<rparr>) = (answered c)\<lparr>prepared := ps\<rparr>"
  "answered (c\<lparr>relation := rel\<rparr>) = (answered c)\<lparr>relation := rel\<rparr>"
  by (simp_all add: answered_def)

lemma Database_PostgreSQL_opens:
  assumes conf: "conf ''postgresql_connection_info'' = Some conninfo"
    and up: "reachable c" "list_all (\<lambda>r. r = Answers) (responses c)"
    and tab: "distinct (map fst (table_of c))" "list_all (\<lambda>r. s16_key (fst r)) (table_of c)"
  shows "\<exists>c'. Database_PostgreSQL conf c = (Inr (), c') \<and> ready c' \<and>
           table_of c' = table_of c \<and> handles c' = handles c + 1"
proof -
  define c1 where "c1 = PQconnectdb conninfo c"
  have a1: "answering c1" and p1: "prepared c1 = []" and t1: "table_of c1 = table_of c"
    and h1: "handles c1 = handles c + 1"
    using up by (simp_all add: c1_def PQconnectdb_def answering_def table_of_def)
  have s1: "status c1 = CONNECTION_OK" using a1 by (simp add: answering_def)
  note an = answering_answered
  define c' where "c' = (answered (answered (answered (answered (answered (answered (answered c1)))))))
      \<lparr>relation := Some (table_of c),
        prepared := [(''list'', Q_list), (''delete'', Q_delete), (''save'', Q_save),
                     (''load'', Q_load), (''end'', Q_commit), (''begin'', Q_begin)]\<rparr>"
  have run: "Database_PostgreSQL conf c = (Inr (), c')"
    unfolding Database_PostgreSQL_def
    using conf s1 a1 p1 t1
    by (simp add: c1_def [symmetric] Let_def create_table_answering
        PREPARE_STATEMENT_answering an c'_def)
  have "answering c'" using a1 by (simp add: c'_def an)
  then have "ready c'" using tab by (simp add: ready_def c'_def)
  moreover have "handles c' = handles c + 1" using h1 by (simp add: c'_def answered_def)
  moreover have "table_of c' = table_of c" by (simp add: c'_def)
  ultimately show ?thesis using run by blast
qed

lemma ready_opened: "ready opened"
proof -
  have "\<exists>c'. Database_PostgreSQL world_mt fresh_engine = (Inr (), c') \<and> ready c' \<and>
           table_of c' = table_of fresh_engine \<and> handles c' = handles fresh_engine + 1"
    by (rule Database_PostgreSQL_opens [where conninfo = "''host=127.0.0.1 dbname=minetest''"])
       (simp_all add: world_mt_def fresh_engine_def table_of_def)
  then show ?thesis by (auto simp: opened_def)
qed

lemma table_of_opened: "table_of opened = []"
proof -
  have "\<exists>c'. Database_PostgreSQL world_mt fresh_engine = (Inr (), c') \<and> ready c' \<and>
           table_of c' = table_of fresh_engine \<and> handles c' = handles fresh_engine + 1"
    by (rule Database_PostgreSQL_opens [where conninfo = "''host=127.0.0.1 dbname=minetest''"])
       (simp_all add: world_mt_def fresh_engine_def table_of_def)
  then show ?thesis by (auto simp: opened_def table_of_def fresh_engine_def)
qed

section \<open>Save, load, delete and list\<close>

lemma first_data_map_of:
  "first_data k t = (case map_of t k of None \<Rightarrow> [] | Some None \<Rightarrow> [] | Some (Some v) \<Rightarrow> v)"
  by (induction t) (auto simp: first_data_def split: option.splits)

lemma map_of_delete_rows: "map_of (delete_rows k t) k = None"
  by (auto simp: delete_rows_def map_of_eq_None_iff)

lemma count_list_distinct: "distinct xs \<Longrightarrow> x \<in> set xs \<Longrightarrow> count_list xs x = 1"
  by (induction xs) (auto simp: count_list_0_iff)

lemma length_big_payload: "length big_payload = 2 ^ 32 + 3"
  by (simp add: big_payload_def)

lemma int_of_size_big: "int_of_size (2 ^ 32 + 3) = 3"
  by (simp add: int_of_size_def)

lemma saveBlock_big:
  assumes "ready c"
  shows "saveBlock pos big_payload c =
    (Inr True, (answered c)\<lparr>relation := Some (upsert (key_of pos) (take 3 big_payload) (table_of c))\<rparr>)"
  using saveBlock_ready [OF assms, of big_payload pos]
  by (simp only: length_big_payload int_of_size_big) simp

lemma load_after_big:
  assumes "ready c"
  shows "fst (saveBlock pos big_payload c) = Inr True \<and>
         fst (loadBlock pos (snd (saveBlock pos big_payload c))) \<noteq> Inr big_payload"
proof -
  let ?c1 = "(answered c)\<lparr>relation := Some (upsert (key_of pos) (take 3 big_payload) (table_of c))\<rparr>"
  have r1: "ready ?c1" by (rule ready_upsert [OF assms])
  have "fst (loadBlock pos ?c1) = Inr (take 3 big_payload)"
    by (simp add: loadBlock_ready [OF r1] first_data_upsert)
  moreover have "take 3 big_payload \<noteq> big_payload"
  proof
    assume "take 3 big_payload = big_payload"
    then have "length (take 3 big_payload) = length big_payload" by simp
    then show False by (simp add: length_big_payload)
  qed
  ultimately show ?thesis by (simp add: saveBlock_big [OF assms])
qed

text \<open>
  Claim C2, as the code has it. On a session that the constructor has opened and whose
  engine answers, and for every position \<open>pos\<close> and every payload \<open>d\<close> shorter than
  \<open>2^31\<close> bytes, zero bytes included, \<^verbatim>\<open>saveBlock(pos, d)\<close> returns true and
  \<^verbatim>\<open>loadBlock(pos)\<close> then returns exactly \<open>d\<close>. The bound is that of
  \<^verbatim>\<open>(int) data.size()\<close>: the payload of \<open>2^32 + 3\<close> zero bytes is saved as its first
  three bytes, and those are what comes back.
\<close>

theorem save_then_load_round_trip:
  assumes "ready c" and "length d < 2 ^ 31"
  shows "\<exists>c1 c2. saveBlock pos d c = (Inr True, c1) \<and> loadBlock pos c1 = (Inr d, c2)"
proof -
  let ?c1 = "(answered c)\<lparr>relation := Some (upsert (key_of pos) d (table_of c))\<rparr>"
  have "saveBlock pos d c = (Inr True, ?c1)" by (rule saveBlock_ready_small [OF assms])
  moreover have "ready ?c1" by (rule ready_upsert [OF assms(1)])
  then have "loadBlock pos ?c1 = (Inr d, answered ?c1)"
    by (simp add: loadBlock_ready first_data_upsert)
  ultimately show ?thesis by blast
qed

theorem save_then_load_round_trip_witness:
  "ready opened \<and> length [CHR 0x00, CHR 0x01, CHR 0x02] < (2 :: nat) ^ 31 \<and>
   (\<exists>c1 c2. saveBlock pos123 [CHR 0x00, CHR 0x01, CHR 0x02] opened = (Inr True, c1) \<and>
            loadBlock pos123 c1 = (Inr [CHR 0x00, CHR 0x01, CHR 0x02], c2))"
proof -
  have len: "length [CHR 0x00, CHR 0x01, CHR 0x02] < (2 :: nat) ^ 31" by simp
  show ?thesis
    using save_then_load_round_trip [OF ready_opened len, of pos123] ready_opened len by simp
qed

theorem save_then_load_big_payload_counterexample:
  "fst (saveBlock pos123 big_payload opened) = Inr True \<and>
   fst (loadBlock pos123 (snd (saveBlock pos123 big_payload opened))) \<noteq> Inr big_payload"
  by (rule load_after_big [OF ready_opened])

text \<open>
  Claim C6, as the code has it. For payloads \<open>d1\<close> and \<open>d2\<close> shorter than \<open>2^31\<close>
  bytes, \<^verbatim>\<open>saveBlock(pos, d1)\<close> then \<^verbatim>\<open>saveBlock(pos, d2)\<close> both succeed,
  \<^verbatim>\<open>loadBlock(pos)\<close> returns \<open>d2\<close>, the table holds exactly one row for the key, the
  second save adds no row, and \<^verbatim>\<open>listAllLoadableBlocks\<close> reports \<open>pos\<close> exactly once.
  Without the bound the last write is not what is loaded: see the counterexample.
\<close>

theorem save_is_upsert:
  assumes "ready c" and "length d1 < 2 ^ 31" and "length d2 < 2 ^ 31"
  shows "\<exists>c1 c2 c3 c4 ks.
           saveBlock pos d1 c = (Inr True, c1) \<and> saveBlock pos d2 c1 = (Inr True, c2) \<and>
           loadBlock pos c2 = (Inr d2, c3) \<and>
           length (filter (\<lambda>r. fst r = key_of pos) (table_of c2)) = 1 \<and>
           length (table_of c2) = length (table_of c1) \<and>
           listAllLoadableBlocks [] c3 = (Inr ks, c4) \<and> count_list ks pos = 1"
proof -
  let ?k = "key_of pos"
  let ?t1 = "upsert ?k d1 (table_of c)"
  let ?c1 = "(answered c)\<lparr>relation := Some ?t1\<rparr>"
  let ?t2 = "upsert ?k d2 ?t1"
  let ?c2 = "(answered ?c1)\<lparr>relation := Some ?t2\<rparr>"
  let ?ks = "map pos_of (map fst ?t2)"
  have s1: "saveBlock pos d1 c = (Inr True, ?c1)" by (rule saveBlock_ready_small [OF assms(1,2)])
  have r1: "ready ?c1" by (rule ready_upsert [OF assms(1)])
  have s2: "saveBlock pos d2 ?c1 = (Inr True, ?c2)"
    using saveBlock_ready_small [OF r1 assms(3), of pos] by simp
  have r2: "ready ?c2" using ready_upsert [OF r1, of pos d2] by simp
  have l: "loadBlock pos ?c2 = (Inr d2, answered ?c2)"
    using loadBlock_ready [OF r2, of pos] by (simp add: first_data_upsert)
  have d1: "distinct (map fst ?t1)" using r1 by (simp add: ready_def)
  have one: "length (filter (\<lambda>r. fst r = ?k) ?t2) = 1" by (rule count_rows_upsert [OF d1])
  have "filter (\<lambda>r. fst r = ?k) ?t1 \<noteq> []"
    using set_keys_upsert [of ?k d1 "table_of c"] by (simp add: filter_key_empty del: set_map)
  then have same: "length ?t2 = length ?t1" by (simp add: upsert_def [of ?k d2])
  have r3: "ready (answered ?c2)" by (rule ready_answered [OF r2])
  have li: "listAllLoadableBlocks [] (answered ?c2) = (Inr ?ks, answered (answered ?c2))"
    using listAllLoadableBlocks_ready [OF r3, of "[]"] by (simp add: answered_def table_of_def)
  have "distinct ?ks" using ready_listed_distinct [OF r2] by simp
  moreover have "pos \<in> set ?ks"
  proof -
    have "?k \<in> set (map fst ?t2)" by (simp add: set_keys_upsert del: set_map)
    then have "pos_of ?k \<in> pos_of ` set (map fst ?t2)" by (rule imageI)
    then have "pos_of ?k \<in> set ?ks" by (simp only: set_map)
    then show ?thesis by (simp only: pos_of_key_of)
  qed
  ultimately have "count_list ?ks pos = 1" by (rule count_list_distinct)
  with s1 s2 l one same li show ?thesis
    by (intro exI [of _ ?c1] exI [of _ ?c2] exI [of _ "answered ?c2"]
        exI [of _ "answered (answered ?c2)"] exI [of _ ?ks]) simp
qed

theorem save_is_upsert_witness:
  "ready opened \<and> length ''first'' < (2 :: nat) ^ 31 \<and> length ''second'' < (2 :: nat) ^ 31 \<and>
   (\<exists>c1 c2 c3 c4 ks.
      saveBlock pos123 ''first'' opened = (Inr True, c1) \<and>
      saveBlock pos123 ''second'' c1 = (Inr True, c2) \<and>
      loadBlock pos123 c2 = (Inr ''second'', c3) \<and>
      length (filter (\<lambda>r. fst r = key_of pos123) (table_of c2)) = 1 \<and>
      length (table_of c2) = length (table_of c1) \<and>
      listAllLoadableBlocks [] c3 = (Inr ks, c4) \<and> count_list ks pos123 = 1)"
proof -
  have l1: "length ''first'' < (2 :: nat) ^ 31" and l2: "length ''second'' < (2 :: nat) ^ 31"
    by simp_all
  show ?thesis
    using save_is_upsert [OF ready_opened l1 l2, of pos123] ready_opened l1 l2 by simp
qed

theorem save_is_upsert_big_payload_counterexample:
  "fst (saveBlock pos123 ''first'' opened) = Inr True \<and>
   fst (saveBlock pos123 big_payload (snd (saveBlock pos123 ''first'' opened))) = Inr True \<and>
   fst (loadBlock pos123
          (snd (saveBlock pos123 big_payload (snd (saveBlock pos123 ''first'' opened)))))
     \<noteq> Inr big_payload"
proof -
  have l1: "length ''first'' < (2 :: nat) ^ 31" by simp
  let ?c1 = "(answered opened)\<lparr>relation := Some (upsert (key_of pos123) ''first'' (table_of opened))\<rparr>"
  have s1: "saveBlock pos123 ''first'' opened = (Inr True, ?c1)"
    by (rule saveBlock_ready_small [OF ready_opened l1])
  have r1: "ready ?c1" by (rule ready_upsert [OF ready_opened])
  show ?thesis using load_after_big [OF r1, of pos123] by (simp add: s1)
qed

lemma saveBlocks_ready:
  assumes "ready c" and "saveBlocks kds c = (Inr (), c1)"
  shows "ready c1 \<and>
         set (map fst (table_of c1)) = set (map fst (table_of c)) \<union> key_of ` fst ` set kds"
  using assms
proof (induction kds arbitrary: c)
  case Nil
  then show ?case by simp
next
  case (Cons kd kds)
  obtain pos d where kd: "kd = (pos, d)" by (cases kd)
  from saveBlock_cases [OF Cons.prems(1), of pos d]
  obtain d' where s: "saveBlock pos d c =
      (Inr True, (answered c)\<lparr>relation := Some (upsert (key_of pos) d' (table_of c))\<rparr>)"
    using Cons.prems(2) kd by auto
  let ?c' = "(answered c)\<lparr>relation := Some (upsert (key_of pos) d' (table_of c))\<rparr>"
  have r: "ready ?c'" by (rule ready_upsert [OF Cons.prems(1)])
  have rest: "saveBlocks kds ?c' = (Inr (), c1)" using Cons.prems(2) kd s by simp
  from Cons.IH [OF r rest]
  have "ready c1" and
    "set (map fst (table_of c1)) = set (map fst (table_of ?c')) \<union> key_of ` fst ` set kds"
    by blast+
  moreover have "set (map fst (table_of ?c')) = insert (key_of pos) (set (map fst (table_of c)))"
    using set_keys_upsert [of "key_of pos" d' "table_of c"] by simp
  ultimately show ?case using kd by auto
qed

lemma inj_key_of: "inj key_of"
  by (rule inj_on_inverseI [where g = pos_of]) (simp add: pos_of_key_of)

text \<open>
  Claim C7. On an opened backend, \<^verbatim>\<open>listAllLoadableBlocks\<close> returns and what it appends
  to an empty vector has no duplicate. When the table was empty and \<^verbatim>\<open>saveBlock\<close> has
  succeeded since for each of N distinct positions (and nothing was deleted), the
  listing holds exactly those N positions, each exactly once: its set is the set of saved
  positions and its length is N. No order is claimed.
\<close>

theorem listAllLoadableBlocks_after_saves:
  assumes "ready c"
  shows "(\<exists>ks c'. listAllLoadableBlocks [] c = (Inr ks, c') \<and> distinct ks) \<and>
         (table_of c = [] \<and> distinct (map fst kds) \<and> saveBlocks kds c = (Inr (), c1) \<longrightarrow>
            (\<exists>ks c2. listAllLoadableBlocks [] c1 = (Inr ks, c2) \<and>
               distinct ks \<and> set ks = set (map fst kds) \<and> length ks = length kds))"
proof (intro conjI impI)
  have "listAllLoadableBlocks [] c = (Inr (map pos_of (map fst (table_of c))), answered c)"
    using listAllLoadableBlocks_ready [OF assms, of "[]"] by simp
  then show "\<exists>ks c'. listAllLoadableBlocks [] c = (Inr ks, c') \<and> distinct ks"
    using ready_listed_distinct [OF assms] by blast
next
  assume a: "table_of c = [] \<and> distinct (map fst kds) \<and> saveBlocks kds c = (Inr (), c1)"
  let ?keys = "map fst (table_of c1)"
  let ?ks = "map pos_of ?keys"
  from a have run: "saveBlocks kds c = (Inr (), c1)" by simp
  from saveBlocks_ready [OF assms run]
  have r1: "ready c1" and keys: "set ?keys = key_of ` fst ` set kds"
    using a by simp_all
  have li: "listAllLoadableBlocks [] c1 = (Inr ?ks, answered c1)"
    using listAllLoadableBlocks_ready [OF r1, of "[]"] by simp
  have d: "distinct ?ks" by (rule ready_listed_distinct [OF r1])
  have "set ?ks = pos_of ` set ?keys" by (simp only: set_map)
  also have "\<dots> = pos_of ` key_of ` fst ` set kds" by (simp only: keys)
  also have "\<dots> = fst ` set kds" by (simp add: image_image pos_of_key_of)
  finally have s: "set ?ks = set (map fst kds)" by simp
  have "length ?ks = card (set ?ks)" using d by (simp only: distinct_card)
  also have "\<dots> = card (set (map fst kds))" by (simp only: s)
  also have "\<dots> = length kds" using a distinct_card [of "map fst kds"] by simp
  finally have l: "length ?ks = length kds" .
  from li d s l
  show "\<exists>ks c2. listAllLoadableBlocks [] c1 = (Inr ks, c2) \<and>
          distinct ks \<and> set ks = set (map fst kds) \<and> length ks = length kds"
    by blast
qed

theorem listAllLoadableBlocks_after_saves_witness:
  "ready opened \<and> table_of opened = [] \<and>
   distinct (map fst [(pos123, [CHR 0x00, CHR 0x01, CHR 0x02]), (\<lparr>X = - 1, Y = 0, Z = 7\<rparr>, ''b'')]) \<and>
   (\<exists>c1. saveBlocks [(pos123, [CHR 0x00, CHR 0x01, CHR 0x02]), (\<lparr>X = - 1, Y = 0, Z = 7\<rparr>, ''b'')] opened
            = (Inr (), c1) \<and> ready c1 \<and>
      (\<exists>ks c2. listAllLoadableBlocks [] c1 = (Inr ks, c2) \<and> distinct ks \<and>
          set ks = set (map fst [(pos123, [CHR 0x00, CHR 0x01, CHR 0x02]), (\<lparr>X = - 1, Y = 0, Z = 7\<rparr>, ''b'')]) \<and>
          length ks = length [(pos123, [CHR 0x00, CHR 0x01, CHR 0x02]), (\<lparr>X = - 1, Y = 0, Z = 7\<rparr>, ''b'')]))"
proof -
  let ?kds = "[(pos123, [CHR 0x00, CHR 0x01, CHR 0x02]), (\<lparr>X = - 1, Y = 0, Z = 7\<rparr>, ''b'')]"
  have dist: "distinct (map fst ?kds)" by (simp add: pos123_def)
  let ?c1 = "(answered opened)\<lparr>relation :=
      Some (upsert (key_of pos123) [CHR 0x00, CHR 0x01, CHR 0x02] (table_of opened))\<rparr>"
  let ?c2 = "(answered ?c1)\<lparr>relation :=
      Some (upsert (key_of \<lparr>X = - 1, Y = 0, Z = 7\<rparr>) ''b'' (table_of ?c1))\<rparr>"
  have s1: "saveBlock pos123 [CHR 0x00, CHR 0x01, CHR 0x02] opened = (Inr True, ?c1)"
    by (rule saveBlock_ready_small [OF ready_opened]) simp
  have r1: "ready ?c1" by (rule ready_upsert [OF ready_opened])
  have s2: "saveBlock \<lparr>X = - 1, Y = 0, Z = 7\<rparr> ''b'' ?c1 = (Inr True, ?c2)"
    by (rule saveBlock_ready_small [OF r1]) simp
  have r2: "ready ?c2" by (rule ready_upsert [OF r1])
  have run: "saveBlocks ?kds opened = (Inr (), ?c2)"
    by (simp only: saveBlocks.simps s1 s2 prod.case sum.case)
  from listAllLoadableBlocks_after_saves [OF ready_opened, of ?kds ?c2] table_of_opened dist run
  have "\<exists>ks c2. listAllLoadableBlocks [] ?c2 = (Inr ks, c2) \<and> distinct ks \<and>
          set ks = set (map fst ?kds) \<and> length ks = length ?kds"
    by blast
  then show ?thesis using ready_opened table_of_opened dist run r2 by blast
qed

text \<open>
  Claim C1, as the code has it. On an opened backend, \<^verbatim>\<open>loadBlock(pos)\<close> returns the
  stored payload of the row for \<open>pos\<close> byte for byte, and the empty string when there is
  no such row (or the row's payload is NULL). After \<^verbatim>\<open>saveBlock(pos, d)\<close>, with \<open>d\<close>
  shorter than \<open>2^31\<close> bytes, and \<^verbatim>\<open>deleteBlock(pos)\<close>, no row is left for \<open>pos\<close> and
  \<^verbatim>\<open>loadBlock(pos)\<close> returns the empty string. The empty string is also what a stored
  empty payload loads as, so the caller cannot tell the two apart: the counterexample
  below loads the same value from a table without the key and from one that holds the
  key with an empty payload.
\<close>

theorem loadBlock_found_or_empty:
  assumes "ready c" and "length d < 2 ^ 31"
  shows "(\<exists>c'. loadBlock pos c =
            (Inr (case map_of (table_of c) (key_of pos) of
                    None \<Rightarrow> [] | Some None \<Rightarrow> [] | Some (Some v) \<Rightarrow> v), c')) \<and>
         (\<exists>c1 c2 c3. saveBlock pos d c = (Inr True, c1) \<and> deleteBlock pos c1 = (Inr True, c2) \<and>
            map_of (table_of c2) (key_of pos) = None \<and> loadBlock pos c2 = (Inr [], c3))"
proof -
  let ?k = "key_of pos"
  let ?c1 = "(answered c)\<lparr>relation := Some (upsert ?k d (table_of c))\<rparr>"
  let ?c2 = "(answered ?c1)\<lparr>relation := Some (delete_rows ?k (table_of ?c1))\<rparr>"
  have "loadBlock pos c =
      (Inr (case map_of (table_of c) ?k of None \<Rightarrow> [] | Some None \<Rightarrow> [] | Some (Some v) \<Rightarrow> v),
       answered c)"
    by (simp only: loadBlock_ready [OF assms(1)] first_data_map_of)
  moreover have s: "saveBlock pos d c = (Inr True, ?c1)" by (rule saveBlock_ready_small [OF assms])
  moreover have r1: "ready ?c1" by (rule ready_upsert [OF assms(1)])
  then have del: "deleteBlock pos ?c1 = (Inr True, ?c2)" by (rule deleteBlock_ready)
  moreover have r2: "ready ?c2" by (rule ready_delete_rows [OF r1])
  have gone: "map_of (table_of ?c2) ?k = None" by (simp add: map_of_delete_rows)
  moreover have "loadBlock pos ?c2 = (Inr [], answered ?c2)"
    using gone by (simp only: loadBlock_ready [OF r2] first_data_map_of option.case)
  ultimately show ?thesis by blast
qed

theorem loadBlock_found_or_empty_witness:
  "ready opened \<and> length ''payload'' < (2 :: nat) ^ 31 \<and>
   (\<exists>c'. loadBlock pos123 opened =
            (Inr (case map_of (table_of opened) (key_of pos123) of
                    None \<Rightarrow> [] | Some None \<Rightarrow> [] | Some (Some v) \<Rightarrow> v), c')) \<and>
   (\<exists>c1 c2 c3. saveBlock pos123 ''payload'' opened = (Inr True, c1) \<and>
      deleteBlock pos123 c1 = (Inr True, c2) \<and>
      map_of (table_of c2) (key_of pos123) = None \<and> loadBlock pos123 c2 = (Inr [], c3))"
proof -
  have len: "length ''payload'' < (2 :: nat) ^ 31" by simp
  show ?thesis
    using loadBlock_found_or_empty [OF ready_opened len, of pos123] ready_opened len by simp
qed

theorem loadBlock_absent_is_empty_payload_counterexample:
  "fst (loadBlock pos123 (snd (deleteBlock pos123 (snd (saveBlock pos123 ''payload'' opened)))))
     = fst (loadBlock pos123 (snd (saveBlock pos123 [] opened))) \<and>
   map_of (table_of (snd (deleteBlock pos123 (snd (saveBlock pos123 ''payload'' opened)))))
     (key_of pos123) = None \<and>
   map_of (table_of (snd (saveBlock pos123 [] opened))) (key_of pos123) = Some (Some [])"
proof -
  let ?k = "key_of pos123"
  let ?c1 = "(answered opened)\<lparr>relation := Some (upsert ?k ''payload'' (table_of opened))\<rparr>"
  let ?c2 = "(answered ?c1)\<lparr>relation := Some (delete_rows ?k (table_of ?c1))\<rparr>"
  let ?e1 = "(answered opened)\<lparr>relation := Some (upsert ?k [] (table_of opened))\<rparr>"
  have s: "saveBlock pos123 ''payload'' opened = (Inr True, ?c1)"
    by (rule saveBlock_ready_small [OF ready_opened]) simp
  have r1: "ready ?c1" by (rule ready_upsert [OF ready_opened])
  have del: "deleteBlock pos123 ?c1 = (Inr True, ?c2)" by (rule deleteBlock_ready [OF r1])
  have r2: "ready ?c2" by (rule ready_delete_rows [OF r1])
  have gone: "map_of (table_of ?c2) ?k = None" by (simp add: map_of_delete_rows)
  have l2: "loadBlock pos123 ?c2 = (Inr [], answered ?c2)"
    using gone by (simp only: loadBlock_ready [OF r2] first_data_map_of option.case)
  have se: "saveBlock pos123 [] opened = (Inr True, ?e1)"
    by (rule saveBlock_ready_small [OF ready_opened]) simp
  have re: "ready ?e1" by (rule ready_upsert [OF ready_opened])
  have there: "map_of (table_of ?e1) ?k = Some (Some [])"
    by (simp add: table_of_opened upsert_def)
  have le: "loadBlock pos123 ?e1 = (Inr [], answered ?e1)"
    using there by (simp only: loadBlock_ready [OF re] first_data_map_of option.case)
  show ?thesis
    by (simp only: s del l2 se le gone there fst_conv snd_conv simp_thms)
qed

section \<open>The connection object over the life of a backend\<close>

lemma handles_request:
  assumes "\<And>c. handles (snd (run c)) = handles c"
  shows "handles (snd (request run c)) = handles c"
proof -
  have "handles (snd (run (c\<lparr>responses := tl (responses c)\<rparr>))) = handles c"
    using assms [of "c\<lparr>responses := tl (responses c)\<rparr>"] by simp
  then show ?thesis
    by (auto simp: request_def Let_def split: response.splits prod.splits)
qed

lemma handles_PQexecPrepared: "handles (snd (PQexecPrepared name ps c)) = handles c"
  unfolding PQexecPrepared_def
  by (rule handles_request) (auto split: option.splits prod.splits)

lemma handles_PQexec: "handles (snd (PQexec q c)) = handles c"
  unfolding PQexec_def
  by (rule handles_request) (auto split: option.splits prod.splits)

lemma handles_PQprepare: "handles (snd (PQprepare name q c)) = handles c"
  unfolding PQprepare_def
  by (rule handles_request) (auto split: option.splits prod.splits)

lemma handles_PG_OK_FREE:
  assumes "\<And>c. handles (snd (s c)) = handles c"
  shows "handles (snd (PG_OK_FREE s c)) = handles c"
  using assms [of c] by (auto simp: PG_OK_FREE_def split: prod.splits sum.splits)

lemma snd_saveBlock:
  "snd (saveBlock pos d c) =
   snd (PG_OK_FREE (PQexecPrepared ''save''
          (map Text (BIND_POS pos) @ [Binary d (int_of_size (length d))])) c)"
  by (simp add: saveBlock_def Let_def split: prod.splits sum.splits)

lemma snd_deleteBlock:
  "snd (deleteBlock pos c) = snd (PG_OK_FREE (PQexecPrepared ''delete'' (map Text (BIND_POS pos))) c)"
  by (simp add: deleteBlock_def split: prod.splits sum.splits)

lemma snd_loadBlock:
  "snd (loadBlock pos c) = snd (PQexecPrepared ''load'' (map Text (BIND_POS pos)) c)"
  by (simp add: loadBlock_def split: prod.splits sum.splits)

lemma snd_listAllLoadableBlocks:
  "snd (listAllLoadableBlocks dst c) = snd (PQexecPrepared ''list'' [] c)"
  by (simp add: listAllLoadableBlocks_def split: prod.splits sum.splits)

lemma handles_invoke: "handles (invoke call c) = handles c"
proof (cases call)
  case BeginSave
  then show ?thesis by (simp add: beginSave_def handles_PG_OK_FREE handles_PQexecPrepared)
next
  case EndSave
  then show ?thesis by (simp add: endSave_def handles_PG_OK_FREE handles_PQexecPrepared)
next
  case (SaveBlock pos d)
  then show ?thesis by (simp add: snd_saveBlock handles_PG_OK_FREE handles_PQexecPrepared)
next
  case (LoadBlock pos)
  then show ?thesis by (simp add: snd_loadBlock handles_PQexecPrepared)
next
  case (DeleteBlock pos)
  then show ?thesis by (simp add: snd_deleteBlock handles_PG_OK_FREE handles_PQexecPrepared)
next
  case ListAllLoadableBlocks
  then show ?thesis by (simp add: snd_listAllLoadableBlocks handles_PQexecPrepared)
qed

lemma handles_fold_invoke: "handles (fold invoke calls c) = handles c"
  by (induction calls arbitrary: c) (simp_all add: handles_invoke)

lemma lifetime_releases_when_constructed:
  assumes "Database_PostgreSQL conf c = (Inr (), c')"
  shows "handles (lifetime conf calls c) = handles c' - 1"
  by (simp add: lifetime_def assms destroy_def PQfinish_def handles_fold_invoke)

lemma lifetime_releases:
  assumes conf: "conf ''postgresql_connection_info'' = Some conninfo"
    and up: "reachable c" "list_all (\<lambda>r. r = Answers) (responses c)"
    and tab: "distinct (map fst (table_of c))" "list_all (\<lambda>r. s16_key (fst r)) (table_of c)"
  shows "handles (lifetime conf calls c) = handles c"
proof -
  from Database_PostgreSQL_opens [where conf = conf and c = c, OF conf up tab]
  obtain c' where "Database_PostgreSQL conf c = (Inr (), c')" and "handles c' = handles c + 1"
    by blast
  then show ?thesis by (simp add: lifetime_releases_when_constructed)
qed

lemma lifetime_no_setting: "conf ''postgresql_connection_info'' = None \<Longrightarrow> lifetime conf calls c = c"
  by (simp add: lifetime_def Database_PostgreSQL_def)

lemma lifetime_unreachable:
  assumes "conf ''postgresql_connection_info'' = Some conninfo" and "\<not> reachable c"
  shows "handles (lifetime conf calls c) = handles c + 1"
  using assms by (simp add: lifetime_def Database_PostgreSQL_def PQconnectdb_def Let_def)

text \<open>
  Claim C5 says that the session handle is released on every exit path, a failed open
  included. The code releases it in the destructor only. Evaluated here: with an engine
  that cannot be reached, and with an engine that accepts the connection and then fails
  the first \<^verbatim>\<open>PQprepare\<close>, the constructor throws \<^verbatim>\<open>FileNotGoodException\<close> after
  \<^verbatim>\<open>PQconnectdb\<close> has made the connection object; no destructor runs, and the life of
  the backend ends with that object still allocated. (When the constructor completes,
  the handle is released whatever the calls in between did: \<open>lifetime_releases\<close>.)
\<close>

theorem failed_open_leaks_connection:
  "handles unreachable_engine = 0 \<and>
   (\<exists>e. fst (Database_PostgreSQL world_mt unreachable_engine) = Inl (FileNotGoodException e)) \<and>
   handles (lifetime world_mt [] unreachable_engine) = 1 \<and>
   (\<exists>e. fst (Database_PostgreSQL world_mt failing_engine) = Inl (FileNotGoodException e)) \<and>
   handles (lifetime world_mt [] failing_engine) = 1"
  by (simp add: lifetime_def Database_PostgreSQL_def PQconnectdb_def Let_def world_mt_def
      unreachable_engine_def failing_engine_def fresh_engine_def PREPARE_STATEMENT_def PG_OK_FREE_def PQexec_def
      PQprepare_def request_def next_response_def PG_RES_def command_ok_def fatal_error_def)

section \<open>SharedBuffer: indexing and construction\<close>

lemma and_then_Inr [simp]: "and_then (Inr x) f = f x"
  by (simp add: and_then_def)

lemma and_then_Inl [simp]: "and_then (Inl e) f = Inl e"
  by (simp add: and_then_def)

lemma element_bound:
  fixes i n :: "32 word"
  assumes "i < n"
  shows "sz * unat i + sz \<le> sz * unat n"
proof -
  have "unat i + 1 \<le> unat n" using assms by (simp add: word_less_nat_alt)
  then have "sz * (unat i + 1) \<le> sz * unat n" by (rule mult_le_mono2)
  then show ?thesis by simp
qed

text \<open>
  Claim C9. For a SharedBuffer of size \<open>n\<close> whose storage is in place, \<^verbatim>\<open>operator[]\<close>
  with an index \<open>i \<ge> n\<close> fails its assertion, whether the reference would be read or
  written, and touches no memory; with \<open>i < n\<close> it yields element \<open>i\<close>, the \<open>sz\<close>
  bytes at offset \<open>sz * i\<close> of the block.
\<close>

theorem SharedBuffer_index_checked:
  assumes "shared_buffers h this = Some b" and "shared_ok sz h b"
  shows "(SharedBuffer.m_size b \<le> i \<longrightarrow>
            SharedBuffer_index sz this i h = Inl AssertionFailed \<and>
            SharedBuffer_index_assign sz this i v h = Inl AssertionFailed) \<and>
         (i < SharedBuffer.m_size b \<longrightarrow>
            SharedBuffer_index sz this i h =
              Inr (take sz (drop (sz * unat i) (bytes_at (SharedBuffer.data b) h))))"
proof (intro conjI impI)
  assume "SharedBuffer.m_size b \<le> i"
  then have "\<not> i < SharedBuffer.m_size b" by simp
  then show "SharedBuffer_index sz this i h = Inl AssertionFailed"
    and "SharedBuffer_index_assign sz this i v h = Inl AssertionFailed"
    using assms(1) by (simp_all add: SharedBuffer_index_def SharedBuffer_index_assign_def assert_def)
next
  assume lt: "i < SharedBuffer.m_size b"
  then have "SharedBuffer.m_size b \<noteq> 0" by auto
  with assms(2) obtain a bs where a: "SharedBuffer.data b = Some a" "arrays h a = Some bs"
      "length bs = sz * unat (SharedBuffer.m_size b)"
    by (auto simp: shared_ok_def split: option.splits)
  have "sz * unat i + sz \<le> length bs" using element_bound [OF lt, of sz] a(3) by simp
  then show "SharedBuffer_index sz this i h =
      Inr (take sz (drop (sz * unat i) (bytes_at (SharedBuffer.data b) h)))"
    using assms(1) lt a by (simp add: SharedBuffer_index_def assert_def read_element_def bytes_at_def)
qed

lemma SharedBuffer_size_result:
  "SharedBuffer_size sz this n h =
     Inr (h\<lparr>arrays := (if n \<noteq> 0 then (arrays h)(fresh h \<mapsto> replicate (sz * unat n) 0) else arrays h),
            counters := (counters h)((if n \<noteq> 0 then fresh h + 1 else fresh h) \<mapsto> 1),
            fresh := (if n \<noteq> 0 then fresh h + 2 else fresh h + 1),
            shared_buffers := (shared_buffers h)(this \<mapsto>
               \<lparr>SharedBuffer.data = (if n \<noteq> 0 then Some (fresh h) else None), m_size = n,
                refcount = (if n \<noteq> 0 then fresh h + 1 else fresh h)\<rparr>)\<rparr>)"
  by (simp add: SharedBuffer_size_def new_array_def new_unsigned_int_def memset_def unat_eq_0)

text \<open>
  Claim C10. \<^verbatim>\<open>SharedBuffer(unsigned int size)\<close> with a size \<open>n > 0\<close> returns, the new
  object has size \<open>n\<close>, its counter holds 1, and each of its \<open>n\<close> elements reads as
  \<open>sz\<close> zero bytes, whatever the new memory held.
\<close>

theorem SharedBuffer_size_zeroed:
  assumes "n \<noteq> 0"
  shows "\<exists>h' b. SharedBuffer_size sz this n h = Inr h' \<and> shared_buffers h' this = Some b \<and>
           SharedBuffer.m_size b = n \<and> counters h' (refcount b) = Some 1 \<and>
           (\<forall>i. i < n \<longrightarrow> SharedBuffer_index sz this i h' = Inr (replicate sz 0))"
proof -
  let ?b = "\<lparr>SharedBuffer.data = Some (fresh h), m_size = n, refcount = fresh h + 1\<rparr>"
  let ?h' = "h\<lparr>arrays := (arrays h)(fresh h \<mapsto> replicate (sz * unat n) 0),
               counters := (counters h)(fresh h + 1 \<mapsto> 1),
               fresh := fresh h + 2,
               shared_buffers := (shared_buffers h)(this \<mapsto> ?b)\<rparr>"
  have run: "SharedBuffer_size sz this n h = Inr ?h'"
    using assms by (simp add: SharedBuffer_size_result)
  have "SharedBuffer_index sz this i ?h' = Inr (replicate sz 0)" if "i < n" for i
  proof -
    have le: "sz * unat i + sz \<le> sz * unat n" by (rule element_bound [OF that])
    then have "min sz (sz * unat n - sz * unat i) = sz" by simp
    then show ?thesis using that le
      by (simp add: SharedBuffer_index_def assert_def read_element_def)
  qed
  then show ?thesis using run by simp
qed

theorem SharedBuffer_size_zeroed_witness:
  "(3 :: 32 word) \<noteq> 0 \<and>
   (\<exists>h' b. SharedBuffer_size 2 7 3 empty_heap = Inr h' \<and> shared_buffers h' 7 = Some b \<and>
      SharedBuffer.m_size b = 3 \<and> counters h' (refcount b) = Some 1 \<and>
      SharedBuffer_index 2 7 0 h' = Inr [0, 0] \<and>
      SharedBuffer_index 2 7 1 h' = Inr [0, 0] \<and>
      SharedBuffer_index 2 7 2 h' = Inr [0, 0])"
proof -
  have n: "(3 :: 32 word) \<noteq> 0" by simp
  from SharedBuffer_size_zeroed [OF n, of 2 7 empty_heap]
  obtain h' b where r: "SharedBuffer_size 2 7 3 empty_heap = Inr h'" "shared_buffers h' 7 = Some b"
      "SharedBuffer.m_size b = 3" "counters h' (refcount b) = Some 1"
      and z: "\<forall>i. i < 3 \<longrightarrow> SharedBuffer_index 2 7 i h' = Inr (replicate 2 0)"
    by blast
  have lt: "(0 :: 32 word) < 3" "(1 :: 32 word) < 3" "(2 :: 32 word) < 3" by simp_all
  have rep: "replicate 2 (0 :: byte) = [0, 0]" by (simp add: numeral_2_eq_2)
  have "SharedBuffer_index 2 7 0 h' = Inr [0, 0]" "SharedBuffer_index 2 7 1 h' = Inr [0, 0]"
    "SharedBuffer_index 2 7 2 h' = Inr [0, 0]"
    using z [rule_format, OF lt(1)] z [rule_format, OF lt(2)] z [rule_format, OF lt(3)]
    by (simp_all only: rep)
  with r n show ?thesis by blast
qed

theorem SharedBuffer_index_checked_witness:
  "shared_buffers sample_heap 7 = Some sample_shared \<and> shared_ok 2 sample_heap sample_shared \<and>
   SharedBuffer.m_size sample_shared \<le> 3 \<and>
   SharedBuffer_index 2 7 3 sample_heap = Inl AssertionFailed \<and>
   SharedBuffer_index_assign 2 7 3 [9, 9] sample_heap = Inl AssertionFailed \<and>
   2 < SharedBuffer.m_size sample_shared \<and>
   SharedBuffer_index 2 7 2 sample_heap = Inr [3, 0]"
proof -
  have a: "shared_buffers sample_heap 7 = Some sample_shared"
    by (simp add: sample_heap_def)
  have b: "shared_ok 2 sample_heap sample_shared"
    by (simp add: shared_ok_def sample_heap_def sample_shared_def)
  have c: "SharedBuffer.m_size sample_shared \<le> 3" "2 < SharedBuffer.m_size sample_shared"
    by (simp_all add: sample_shared_def)
  have d: "take 2 (drop (2 * unat (2 :: 32 word)) (bytes_at (SharedBuffer.data sample_shared) sample_heap)) = [3, 0]"
    by (simp add: bytes_at_def sample_heap_def sample_shared_def)
  show ?thesis
    using SharedBuffer_index_checked [OF a b, of 3 "[9, 9]"] SharedBuffer_index_checked [OF a b, of 2]
      a b c d by simp
qed

text \<open>
  For an element type of one byte the count of elements is the count of bytes, and the
  constructor from a raw source copies every element.
\<close>

lemma take_one_drop: "i < length xs \<Longrightarrow> take 1 (drop i xs) = [xs ! i]"
  by (simp add: Cons_nth_drop_Suc [symmetric])

lemma SharedBuffer_from_bytes:
  assumes "unat n \<le> length t"
  shows "\<exists>h'. SharedBuffer_from 1 this t n h = Inr h' \<and> SharedBuffer_getSize this h' = Inr n \<and>
           (\<forall>i. i < n \<longrightarrow> SharedBuffer_index 1 this i h' = Inr [t ! unat i])"
proof (cases "n = 0")
  case True
  then show ?thesis
    by (simp add: SharedBuffer_from_def new_unsigned_int_def SharedBuffer_getSize_def)
next
  case False
  then have pos: "unat n \<noteq> 0" by (simp add: unat_eq_0)
  let ?h' = "h\<lparr>arrays := (arrays h)(fresh h \<mapsto> take (unat n) t),
               counters := (counters h)(fresh h + 1 \<mapsto> 1), fresh := fresh h + 2,
               shared_buffers := (shared_buffers h)(this \<mapsto>
                 \<lparr>SharedBuffer.data = Some (fresh h), m_size = n, refcount = fresh h + 1\<rparr>)\<rparr>"
  have run: "SharedBuffer_from 1 this t n h = Inr ?h'"
    using False pos assms
    by (simp add: SharedBuffer_from_def new_array_def new_unsigned_int_def memcpy_def)
  have "SharedBuffer_index 1 this i ?h' = Inr [t ! unat i]" if "i < n" for i
  proof -
    have lt: "unat i < unat n" using that by (simp add: word_less_nat_alt)
    then have "unat i < length (take (unat n) t)" using assms by simp
    from take_one_drop [OF this] have "take 1 (drop (unat i) (take (unat n) t)) = [t ! unat i]"
      using lt by simp
    then show ?thesis using that lt assms
      by (simp add: SharedBuffer_index_def assert_def read_element_def)
  qed
  then show ?thesis using run by (simp add: SharedBuffer_getSize_def)
qed

text \<open>
  Claim C4 says that building a SharedBuffer from a Buffer or from a raw source of \<open>N\<close>
  elements copies all \<open>N\<close> elements. Both constructors give \<^verbatim>\<open>memcpy\<close> the element
  count as its byte count, where \<^verbatim>\<open>Buffer(const T*, size_t)\<close> multiplies by
  \<^verbatim>\<open>sizeof(T)\<close>. Evaluated here for a two-byte element type and the two elements
  \<open>0x0101\<close>, \<open>0x0202\<close>: the size is 2 and the first element arrives, the second is
  whatever the new block held (\<open>0xCD\<close> bytes in \<open>empty_heap\<close>). The Buffer built from
  the same source holds both elements.
\<close>

theorem SharedBuffer_copies_too_few_bytes:
  "(\<exists>h'. SharedBuffer_from 2 7 two_shorts 2 empty_heap = Inr h' \<and>
      SharedBuffer_getSize 7 h' = Inr 2 \<and>
      SharedBuffer_index 2 7 0 h' = Inr [1, 1] \<and>
      SharedBuffer_index 2 7 1 h' = Inr [0xCD, 0xCD]) \<and>
   (\<exists>h1 h'. Buffer_from 2 5 two_shorts 2 empty_heap = Inr h1 \<and>
      Buffer_index 2 5 0 h1 = Inr [1, 1] \<and> Buffer_index 2 5 1 h1 = Inr [2, 2] \<and>
      SharedBuffer_from_Buffer 2 7 5 h1 = Inr h' \<and>
      SharedBuffer_getSize 7 h' = Inr 2 \<and>
      SharedBuffer_index 2 7 0 h' = Inr [1, 1] \<and>
      SharedBuffer_index 2 7 1 h' = Inr [0xCD, 0xCD])"
  by (simp add: SharedBuffer_from_def SharedBuffer_from_Buffer_def Buffer_from_def
      SharedBuffer_getSize_def SharedBuffer_index_def Buffer_index_def assert_def read_element_def
      new_array_def new_unsigned_int_def memcpy_def bytes_at_def empty_heap_def two_shorts_def
      Let_def upt_rec)

section \<open>Buffer: copies own their storage\<close>

lemma Buffer_from_result:
  assumes "n \<noteq> 0" and "sz * n \<le> length t"
  shows "Buffer_from sz this t n h =
     Inr (h\<lparr>arrays := (arrays h)(fresh h \<mapsto> take (sz * n) t), fresh := fresh h + 1,
            buffers := (buffers h)(this \<mapsto> \<lparr>Buffer.data = Some (fresh h), m_size = n\<rparr>)\<rparr>)"
  using assms by (simp add: Buffer_from_def new_array_def memcpy_def)

lemma write_element_frame:
  assumes "write_element sz p i v h = Inr h2"
  shows "buffers h2 = buffers h \<and> (\<forall>a. p \<noteq> Some a \<longrightarrow> arrays h2 a = arrays h a)"
  using assms by (auto simp: write_element_def split: option.splits if_splits)

lemma write_element_succeeds:
  assumes "arrays h a = Some bs" and "sz * i + sz \<le> length bs" and "length v = sz"
  shows "\<exists>h2. write_element sz (Some a) i v h = Inr h2"
  using assms by (simp add: write_element_def)

lemma read_element_cong:
  "(\<And>a. p = Some a \<Longrightarrow> arrays h2 a = arrays h a) \<Longrightarrow> read_element sz p j h2 = read_element sz p j h"
  by (simp add: read_element_def split: option.splits)

lemma nat_element_bound: "i < n \<Longrightarrow> sz * i + sz \<le> sz * (n :: nat)"
proof -
  assume "i < n"
  then have "sz * (i + 1) \<le> sz * n" by (intro mult_le_mono2) simp
  then show ?thesis by simp
qed

lemma Buffer_copy_frame:
  assumes src: "buffers h buffer = Some b" "buffer_ok sz h b" and diff: "this \<noteq> buffer"
  shows "\<exists>h1. Buffer_copy sz this buffer h = Inr h1 \<and>
           (\<forall>j. Buffer_index sz this j h1 = Buffer_index sz buffer j h) \<and>
           (\<forall>i v. i < Buffer.m_size b \<and> length v = sz \<longrightarrow>
              (\<exists>h2. Buffer_index_assign sz this i v h1 = Inr h2)) \<and>
           (\<forall>i v h2. Buffer_index_assign sz this i v h1 = Inr h2 \<longrightarrow>
              (\<forall>j. Buffer_index sz buffer j h2 = Buffer_index sz buffer j h))"
proof (cases "Buffer.data b")
  case None
  then have z: "Buffer.m_size b = 0" using src(2) by (simp add: buffer_ok_def)
  let ?h1 = "h\<lparr>buffers := (buffers h)(this \<mapsto> \<lparr>Buffer.data = None, m_size = 0\<rparr>)\<rparr>"
  have run: "Buffer_copy sz this buffer h = Inr ?h1"
    using src(1) z by (simp add: Buffer_copy_def Buffer_from_def)
  have "Buffer_index sz this j ?h1 = Buffer_index sz buffer j h" for j
    using src(1) None by (simp add: Buffer_index_def read_element_def)
  moreover have "Buffer_index_assign sz this i v ?h1 = Inl UndefinedBehaviour" for i v
    by (simp add: Buffer_index_assign_def write_element_def)
  ultimately show ?thesis using run z by simp
next
  case (Some a)
  then obtain bs where a: "Buffer.m_size b \<noteq> 0" "a < fresh h" "arrays h a = Some bs"
      "length bs = sz * Buffer.m_size b"
    using src(2) by (auto simp: buffer_ok_def split: option.splits)
  let ?n = "Buffer.m_size b"
  let ?h1 = "h\<lparr>arrays := (arrays h)(fresh h \<mapsto> bs), fresh := fresh h + 1,
               buffers := (buffers h)(this \<mapsto> \<lparr>Buffer.data = Some (fresh h), m_size = ?n\<rparr>)\<rparr>"
  have run: "Buffer_copy sz this buffer h = Inr ?h1"
    using src(1) Some a by (simp add: Buffer_copy_def bytes_at_def Buffer_from_result)
  have same: "Buffer_index sz this j ?h1 = Buffer_index sz buffer j h" for j
    using src(1) Some a by (simp add: Buffer_index_def read_element_def)
  have ok: "\<exists>h2. Buffer_index_assign sz this i v ?h1 = Inr h2" if "i < ?n" "length v = sz" for i v
    using that a(4) nat_element_bound [OF that(1), of sz]
    by (simp add: Buffer_index_assign_def write_element_def)
  have frame: "Buffer_index sz buffer j h2 = Buffer_index sz buffer j h"
    if w: "Buffer_index_assign sz this i v ?h1 = Inr h2" for i v h2 j
  proof -
    have w': "write_element sz (Some (fresh h)) i v ?h1 = Inr h2"
      using w by (simp add: Buffer_index_assign_def)
    from write_element_frame [OF w']
    have b2: "buffers h2 = buffers ?h1" and a2: "arrays h2 a = arrays ?h1 a"
      using a(2) by auto
    have "buffers h2 buffer = Some b" using b2 src(1) diff by simp
    moreover have "arrays h2 a = arrays h a" using a2 a(2) by simp
    ultimately show ?thesis using src(1) Some
      by (simp add: Buffer_index_def read_element_def)
  qed
  show ?thesis using run same ok frame by blast
qed

lemma Buffer_drop_result:
  assumes "buffers h this = Some t" and "Buffer.data t = Some at" and "arrays h at = Some bt"
  shows "Buffer_drop this h =
     Inr (h\<lparr>arrays := (arrays h)(at := None), released := released h @ [at],
            buffers := (buffers h)(this \<mapsto> t\<lparr>Buffer.data := None\<rparr>)\<rparr>)"
  using assms by (simp add: Buffer_drop_def delete_array_def)

lemma Buffer_update_all [simp]:
  "(t :: Buffer)\<lparr>Buffer.data := p, Buffer.m_size := n\<rparr> = \<lparr>Buffer.data = p, m_size = n\<rparr>"
  by (cases t) simp

lemma Buffer_resize_result:
  assumes t: "buffers h this = Some t" "buffer_ok sz h t"
  shows "\<exists>h1 p. Buffer_resize sz this n h = Inr h1 \<and>
           buffers h1 = (buffers h)(this \<mapsto> \<lparr>Buffer.data = p, m_size = n\<rparr>) \<and>
           (case p of
              None \<Rightarrow> n = 0
            | Some a' \<Rightarrow> (\<exists>bs'. arrays h1 a' = Some bs' \<and> length bs' = sz * n) \<and>
                (Buffer.data t = Some a' \<or> fresh h \<le> a')) \<and>
           (\<forall>a. a < fresh h \<and> Buffer.data t \<noteq> Some a \<longrightarrow> arrays h1 a = arrays h a)"
proof (cases "n = Buffer.m_size t")
  case True
  have "(buffers h)(this \<mapsto> \<lparr>Buffer.data = Buffer.data t, m_size = n\<rparr>) = buffers h"
    using t(1) True by (auto simp: fun_eq_iff)
  then show ?thesis using t True
    by (intro exI [of _ h] exI [of _ "Buffer.data t"])
       (auto simp: Buffer_resize_def buffer_ok_def split: option.splits)
next
  case False
  show ?thesis
  proof (cases "Buffer.data t")
    case None
    then have z: "Buffer.m_size t = 0" using t(2) by (simp add: buffer_ok_def)
    then have "n \<noteq> 0" using False by simp
    then show ?thesis using t(1) None z False
      by (intro exI [of _ "h\<lparr>arrays := (arrays h)(fresh h \<mapsto> map (garbage h (fresh h)) [0..<sz * n]),
              fresh := fresh h + 1,
              buffers := (buffers h)(this \<mapsto> \<lparr>Buffer.data = Some (fresh h), m_size = n\<rparr>)\<rparr>"]
            exI [of _ "Some (fresh h)"])
         (simp add: Buffer_resize_def new_array_def)
  next
    case (Some at)
    then obtain bt where a: "Buffer.m_size t \<noteq> 0" "at < fresh h" "arrays h at = Some bt"
      using t(2) by (auto simp: buffer_ok_def split: option.splits)
    note d = Buffer_drop_result [OF t(1) Some a(3)]
    show ?thesis
    proof (cases "n = 0")
      case True
      then show ?thesis using t(1) Some a False d
        by (intro exI [of _ "h\<lparr>arrays := (arrays h)(at := None), released := released h @ [at],
              buffers := (buffers h)(this \<mapsto> \<lparr>Buffer.data = None, m_size = 0\<rparr>)\<rparr>"]
              exI [of _ None])
           (simp add: Buffer_resize_def)
    next
      case nz: False
      then show ?thesis using t(1) Some a False d
        by (intro exI [of _ "h\<lparr>arrays := (arrays h)(at := None,
                  fresh h \<mapsto> map (garbage h (fresh h)) [0..<sz * n]),
              fresh := fresh h + 1, released := released h @ [at],
              buffers := (buffers h)(this \<mapsto> \<lparr>Buffer.data = Some (fresh h), m_size = n\<rparr>)\<rparr>"]
              exI [of _ "Some (fresh h)"])
           (simp add: Buffer_resize_def new_array_def)
    qed
  qed
qed

lemma Buffer_assign_frame:
  assumes src: "buffers h buffer = Some b" "buffer_ok sz h b"
    and tgt: "buffers h this = Some t" "buffer_ok sz h t"
    and diff: "this \<noteq> buffer"
    and sep: "Buffer.data t = None \<or> Buffer.data t \<noteq> Buffer.data b"
    and sz: "0 < sz"
  shows "\<exists>h1. Buffer_assign sz this buffer h = Inr h1 \<and>
           (\<forall>i v. i < Buffer.m_size b \<and> length v = sz \<longrightarrow>
              (\<exists>h2. Buffer_index_assign sz this i v h1 = Inr h2)) \<and>
           (\<forall>i v h2. Buffer_index_assign sz this i v h1 = Inr h2 \<longrightarrow>
              (\<forall>j. Buffer_index sz buffer j h2 = Buffer_index sz buffer j h))"
proof -
  let ?n = "Buffer.m_size b"
  from Buffer_resize_result [OF tgt, of ?n]
  obtain h1 p where r: "Buffer_resize sz this ?n h = Inr h1"
    and o1: "buffers h1 = (buffers h)(this \<mapsto> \<lparr>Buffer.data = p, m_size = ?n\<rparr>)"
    and p: "case p of None \<Rightarrow> ?n = 0
            | Some a' \<Rightarrow> (\<exists>bs'. arrays h1 a' = Some bs' \<and> length bs' = sz * ?n) \<and>
                (Buffer.data t = Some a' \<or> fresh h \<le> a')"
    and keep: "\<forall>a. a < fresh h \<and> Buffer.data t \<noteq> Some a \<longrightarrow> arrays h1 a = arrays h a"
    by blast
  have this1: "buffers h1 this = Some \<lparr>Buffer.data = p, m_size = ?n\<rparr>" by (simp add: o1)
  have src1: "buffers h1 buffer = Some b" using src(1) diff by (simp add: o1)
  have le: "?n \<le> sz * ?n" using sz by simp
  show ?thesis
  proof (cases "Buffer.data b")
    case None
    then have z: "?n = 0" using src(2) by (simp add: buffer_ok_def)
    have run: "Buffer_assign sz this buffer h = Inr h1"
      using diff src(1) r this1 z by (simp add: Buffer_assign_def memcpy_def)
    have "Buffer_index sz buffer j h2 = Buffer_index sz buffer j h"
      if w: "Buffer_index_assign sz this i v h1 = Inr h2" for i v h2 j
    proof -
      have w': "write_element sz p i v h1 = Inr h2"
        using w this1 by (simp add: Buffer_index_assign_def)
      have "buffers h2 buffer = Some b" using write_element_frame [OF w'] src1 by simp
      then show ?thesis using src(1) None by (simp add: Buffer_index_def read_element_def)
    qed
    then show ?thesis using run z by simp
  next
    case (Some a)
    then obtain bs where a: "?n \<noteq> 0" "a < fresh h" "arrays h a = Some bs" "length bs = sz * ?n"
      using src(2) by (auto simp: buffer_ok_def split: option.splits)
    obtain a' bs' where p': "p = Some a'" "arrays h1 a' = Some bs'" "length bs' = sz * ?n"
        "Buffer.data t = Some a' \<or> fresh h \<le> a'"
      using p a(1) by (cases p) auto
    have ta: "Buffer.data t \<noteq> Some a" using sep Some by auto
    have ne: "a' \<noteq> a" using p'(4) ta a(2) by auto
    have a1: "arrays h1 a = Some bs" using keep a(2,3) ta by simp
    let ?h2 = "h1\<lparr>arrays := (arrays h1)(a' \<mapsto> take ?n bs @ drop ?n bs')\<rparr>"
    have run: "Buffer_assign sz this buffer h = Inr ?h2"
      using diff src(1) r this1 Some a(1,4) a1 p' le
      by (simp add: Buffer_assign_def memcpy_def bytes_at_def)
    have len: "length (take ?n bs @ drop ?n bs') = sz * ?n" using a(4) p'(3) le by simp
    have ok: "\<exists>h3. Buffer_index_assign sz this i v ?h2 = Inr h3" if "i < ?n" "length v = sz" for i v
    proof -
      have "arrays ?h2 a' = Some (take ?n bs @ drop ?n bs')" by simp
      from write_element_succeeds [OF this, of sz i v]
      show ?thesis using this1 p'(1) nat_element_bound [OF that(1), of sz] that(2) len
        by (simp add: Buffer_index_assign_def)
    qed
    have frame: "Buffer_index sz buffer j h3 = Buffer_index sz buffer j h"
      if w: "Buffer_index_assign sz this i v ?h2 = Inr h3" for i v h3 j
    proof -
      have w': "write_element sz (Some a') i v ?h2 = Inr h3"
        using w this1 p'(1) by (simp add: Buffer_index_assign_def)
      from write_element_frame [OF w']
      have b3: "buffers h3 = buffers ?h2" and a3: "arrays h3 a = arrays ?h2 a"
        using ne by auto
      have "buffers h3 buffer = Some b" using b3 src1 by simp
      moreover have "arrays h3 a = arrays h a" using a3 ne a1 a(3) by simp
      ultimately show ?thesis using src(1) Some
        by (simp add: Buffer_index_def read_element_def)
    qed
    show ?thesis using run ok frame by blast
  qed
qed

text \<open>
  Claim C8. Let \<open>buffer\<close> be a Buffer whose storage is in place, and \<open>this\<close> another
  object. Copy construction of \<open>this\<close> from \<open>buffer\<close> returns; so does the assignment
  \<^verbatim>\<open>this = buffer\<close> when \<open>this\<close> is a Buffer with storage of its own. After either, every
  element of the copy can be written, and whatever write to an element of the copy
  returns, each element of \<open>buffer\<close> reads as it did before the copy.
\<close>

theorem Buffer_copy_is_deep:
  assumes "buffers h buffer = Some b" and "buffer_ok sz h b" and "this \<noteq> buffer" and "0 < sz"
  shows "(\<exists>h1. Buffer_copy sz this buffer h = Inr h1 \<and>
            (\<forall>i v. i < Buffer.m_size b \<and> length v = sz \<longrightarrow>
               (\<exists>h2. Buffer_index_assign sz this i v h1 = Inr h2)) \<and>
            (\<forall>i v h2. Buffer_index_assign sz this i v h1 = Inr h2 \<longrightarrow>
               (\<forall>j. Buffer_index sz buffer j h2 = Buffer_index sz buffer j h))) \<and>
         (\<forall>t. buffers h this = Some t \<and> buffer_ok sz h t \<and>
              (Buffer.data t = None \<or> Buffer.data t \<noteq> Buffer.data b) \<longrightarrow>
            (\<exists>h1. Buffer_assign sz this buffer h = Inr h1 \<and>
               (\<forall>i v. i < Buffer.m_size b \<and> length v = sz \<longrightarrow>
                  (\<exists>h2. Buffer_index_assign sz this i v h1 = Inr h2)) \<and>
               (\<forall>i v h2. Buffer_index_assign sz this i v h1 = Inr h2 \<longrightarrow>
                  (\<forall>j. Buffer_index sz buffer j h2 = Buffer_index sz buffer j h))))"
proof (intro conjI allI impI)
  show "\<exists>h1. Buffer_copy sz this buffer h = Inr h1 \<and>
            (\<forall>i v. i < Buffer.m_size b \<and> length v = sz \<longrightarrow>
               (\<exists>h2. Buffer_index_assign sz this i v h1 = Inr h2)) \<and>
            (\<forall>i v h2. Buffer_index_assign sz this i v h1 = Inr h2 \<longrightarrow>
               (\<forall>j. Buffer_index sz buffer j h2 = Buffer_index sz buffer j h))"
    using Buffer_copy_frame [OF assms(1,2,3)] by blast
next
  fix t
  assume t: "buffers h this = Some t \<and> buffer_ok sz h t \<and>
      (Buffer.data t = None \<or> Buffer.data t \<noteq> Buffer.data b)"
  then have t1: "buffers h this = Some t" and t2: "buffer_ok sz h t"
    and t3: "Buffer.data t = None \<or> Buffer.data t \<noteq> Buffer.data b"
    by simp_all
  show "\<exists>h1. Buffer_assign sz this buffer h = Inr h1 \<and>
               (\<forall>i v. i < Buffer.m_size b \<and> length v = sz \<longrightarrow>
                  (\<exists>h2. Buffer_index_assign sz this i v h1 = Inr h2)) \<and>
               (\<forall>i v h2. Buffer_index_assign sz this i v h1 = Inr h2 \<longrightarrow>
                  (\<forall>j. Buffer_index sz buffer j h2 = Buffer_index sz buffer j h))"
    by (rule Buffer_assign_frame [OF assms(1,2) t1 t2 assms(3) t3 assms(4)])
qed

theorem Buffer_copy_is_deep_witness:
  "buffers two_buffers 5 = Some \<lparr>Buffer.data = Some 1, m_size = 2\<rparr> \<and>
   buffer_ok 2 two_buffers \<lparr>Buffer.data = Some 1, m_size = 2\<rparr> \<and>
   (8 :: nat) \<noteq> 5 \<and> (6 :: nat) \<noteq> 5 \<and> (0 :: nat) < 2 \<and>
   buffers two_buffers 6 = Some \<lparr>Buffer.data = Some 2, m_size = 1\<rparr> \<and>
   buffer_ok 2 two_buffers \<lparr>Buffer.data = Some 2, m_size = 1\<rparr> \<and>
   Buffer_index 2 5 1 two_buffers = Inr [2, 2] \<and>
   (\<exists>h1 h2. Buffer_copy 2 8 5 two_buffers = Inr h1 \<and>
      Buffer_index_assign 2 8 1 [9, 9] h1 = Inr h2 \<and> Buffer_index 2 5 1 h2 = Inr [2, 2]) \<and>
   (\<exists>h1 h2. Buffer_assign 2 6 5 two_buffers = Inr h1 \<and>
      Buffer_index_assign 2 6 1 [9, 9] h1 = Inr h2 \<and> Buffer_index 2 5 1 h2 = Inr [2, 2])"
proof -
  let ?b = "\<lparr>Buffer.data = Some 1, m_size = 2\<rparr>"
  let ?t = "\<lparr>Buffer.data = Some 2, m_size = 1\<rparr>"
  have b: "buffers two_buffers 5 = Some ?b" and bok: "buffer_ok 2 two_buffers ?b"
    and t: "buffers two_buffers 6 = Some ?t" and tok: "buffer_ok 2 two_buffers ?t"
    by (simp_all add: two_buffers_def buffer_ok_def empty_heap_def)
  have d8: "(8 :: nat) \<noteq> 5" and d6: "(6 :: nat) \<noteq> 5" and sz: "(0 :: nat) < 2" by simp_all
  have sep: "Buffer.data ?t = None \<or> Buffer.data ?t \<noteq> Buffer.data ?b" by simp
  have orig: "Buffer_index 2 5 1 two_buffers = Inr [2, 2]"
    by (simp add: Buffer_index_def read_element_def two_buffers_def empty_heap_def)
  have v: "(1 :: nat) < Buffer.m_size ?b \<and> length [9, 9 :: byte] = 2" by simp
  from Buffer_copy_is_deep [OF b bok d8 sz]
  obtain h1 where c1: "Buffer_copy 2 8 5 two_buffers = Inr h1"
    and c2: "\<forall>i v. i < Buffer.m_size ?b \<and> length v = 2 \<longrightarrow>
               (\<exists>h2. Buffer_index_assign 2 8 i v h1 = Inr h2)"
    and c3: "\<forall>i v h2. Buffer_index_assign 2 8 i v h1 = Inr h2 \<longrightarrow>
               (\<forall>j. Buffer_index 2 5 j h2 = Buffer_index 2 5 j two_buffers)"
    by blast
  from c2 v obtain h2 where c4: "Buffer_index_assign 2 8 1 [9, 9] h1 = Inr h2" by blast
  have c5: "Buffer_index 2 5 1 h2 = Inr [2, 2]" using c3 c4 orig by simp
  from Buffer_copy_is_deep [OF b bok d6 sz] t tok sep
  obtain k1 where a1: "Buffer_assign 2 6 5 two_buffers = Inr k1"
    and a2: "\<forall>i v. i < Buffer.m_size ?b \<and> length v = 2 \<longrightarrow>
               (\<exists>h2. Buffer_index_assign 2 6 i v k1 = Inr h2)"
    and a3: "\<forall>i v h2. Buffer_index_assign 2 6 i v k1 = Inr h2 \<longrightarrow>
               (\<forall>j. Buffer_index 2 5 j h2 = Buffer_index 2 5 j two_buffers)"
    by blast
  from a2 v obtain k2 where a4: "Buffer_index_assign 2 6 1 [9, 9] k1 = Inr k2" by blast
  have a5: "Buffer_index 2 5 1 k2 = Inr [2, 2]" using a3 a4 orig by simp
  show ?thesis using b bok t tok orig c1 c4 c5 a1 a4 a5 by simp
qed

section \<open>SharedBuffer: shared ownership\<close>

lemma increment_result:
  "counters h r = Some v \<Longrightarrow> increment r h = Inr (h\<lparr>counters := (counters h)(r \<mapsto> v + 1)\<rparr>)"
  by (simp add: increment_def)

lemma holders_insert:
  assumes "holders h b S" and "this \<notin> S" and "card S + 1 < 2 ^ 32"
    and "\<forall>x\<in>insert this S. shared_buffers h' x = Some b"
    and "counters h' (refcount b) = Some (of_nat (card S) + 1)"
    and "fresh h \<le> fresh h'" and "arrays h' = arrays h"
    and "set (released h') \<subseteq> set (released h) \<union> {fresh h ..}"
  shows "holders h' b (insert this S)"
proof -
  have fin: "finite S" using assms(1) by (simp add: holders_def)
  then have card: "card (insert this S) = card S + 1" using assms(2) by simp
  have r: "refcount b < fresh h" "refcount b \<notin> set (released h)"
    using assms(1) by (simp_all add: holders_def)
  then have "refcount b \<notin> set (released h')" using assms(8) by auto
  moreover have "case SharedBuffer.data b of None \<Rightarrow> True
      | Some a \<Rightarrow> arrays h' a \<noteq> None \<and> a < fresh h' \<and> a \<notin> set (released h')"
    using assms(1,6,7,8) by (auto simp: holders_def split: option.splits)
  ultimately show ?thesis
    using assms(1,3,4,5,6) fin r card
    by (simp add: holders_def)
qed

lemma copy_construct_step:
  assumes "holders h b S" and "buffer \<in> S" and "this \<notin> S" and "card S + 1 < 2 ^ 32"
  shows "\<exists>h'. SharedBuffer_copy this buffer h = Inr h' \<and> holders h' b (insert this S)"
proof -
  have o: "shared_buffers h buffer = Some b" and c: "counters h (refcount b) = Some (of_nat (card S))"
    using assms(1,2) by (simp_all add: holders_def)
  let ?h0 = "h\<lparr>shared_buffers := (shared_buffers h)(this \<mapsto> b)\<rparr>"
  let ?h' = "?h0\<lparr>counters := (counters ?h0)(refcount b \<mapsto> of_nat (card S) + 1)\<rparr>"
  have run: "SharedBuffer_copy this buffer h = Inr ?h'"
    using o c by (simp add: SharedBuffer_copy_def increment_result)
  have "\<forall>x\<in>insert this S. shared_buffers ?h' x = Some b"
    using assms(1) by (simp add: holders_def)
  then have "holders ?h' b (insert this S)"
    by (intro holders_insert [OF assms(1,3,4)]) simp_all
  with run show ?thesis by blast
qed

lemma copy_assign_step:
  assumes "holders h b S" and "buffer \<in> S" and "this \<notin> S" and "card S + 1 < 2 ^ 32"
  shows "\<exists>h'. SharedBuffer_assign this buffer (SharedBuffer_default this h) = Inr h' \<and>
           holders h' b (insert this S)"
proof -
  have ne: "this \<noteq> buffer" using assms(2,3) by auto
  have o: "shared_buffers h buffer = Some b" and c: "counters h (refcount b) = Some (of_nat (card S))"
    and r: "refcount b < fresh h"
    using assms(1,2) by (simp_all add: holders_def)
  then have rne: "refcount b \<noteq> fresh h" by simp
  let ?t = "\<lparr>SharedBuffer.data = None, m_size = 0, refcount = fresh h\<rparr>"
  let ?hd = "h\<lparr>counters := (counters h)(fresh h \<mapsto> 1), fresh := fresh h + 1,
               shared_buffers := (shared_buffers h)(this \<mapsto> ?t)\<rparr>"
  have dflt: "SharedBuffer_default this h = ?hd"
    by (simp add: SharedBuffer_default_def new_unsigned_int_def)
  let ?h1 = "?hd\<lparr>counters := (counters h)(fresh h := None), released := released h @ [fresh h]\<rparr>"
  have drop: "SharedBuffer_drop this ?hd = Inr ?h1"
    by (simp add: SharedBuffer_drop_def assert_def delete_array_def delete_unsigned_int_def Let_def)
  let ?h2 = "?h1\<lparr>shared_buffers := (shared_buffers ?h1)(this \<mapsto> b)\<rparr>"
  let ?h' = "?h2\<lparr>counters := (counters ?h2)(refcount b \<mapsto> of_nat (card S) + 1)\<rparr>"
  have c2: "counters ?h2 (refcount b) = Some (of_nat (card S))" using c rne by simp
  have run: "SharedBuffer_assign this buffer (SharedBuffer_default this h) = Inr ?h'"
    unfolding dflt SharedBuffer_assign_def using ne o drop increment_result [OF c2] rne
    by simp
  have "\<forall>x\<in>insert this S. shared_buffers ?h' x = Some b"
    using assms(1) by (simp add: holders_def)
  then have "holders ?h' b (insert this S)"
    by (intro holders_insert [OF assms(1,3,4)]) simp_all
  with run show ?thesis by blast
qed

lemma make_copy_step:
  assumes "holders h b S" and "buffer \<in> S" and "this \<notin> S" and "card S + 1 < 2 ^ 32"
  shows "\<exists>h'. make_copy w this buffer h = Inr h' \<and> holders h' b (insert this S)"
  using copy_construct_step [OF assms] copy_assign_step [OF assms] by (cases w) simp_all

lemma make_copies_holders:
  assumes "holders h b S" and "buffer \<in> S" and "distinct (map snd cs)"
    and "set (map snd cs) \<inter> S = {}" and "card S + length cs < 2 ^ 32"
  shows "\<exists>h'. make_copies cs buffer h = Inr h' \<and> holders h' b (S \<union> set (map snd cs))"
  using assms
proof (induction cs arbitrary: h S)
  case Nil
  then show ?case by simp
next
  case (Cons c cs)
  obtain w this where c: "c = (w, this)" by (cases c)
  have fin: "finite S" using Cons.prems(1) by (simp add: holders_def)
  have notin: "this \<notin> S" using Cons.prems(4) c by auto
  have "card S + 1 < 2 ^ 32" using Cons.prems(5) by simp
  from make_copy_step [OF Cons.prems(1,2) notin this, of w]
  obtain h1 where s: "make_copy w this buffer h = Inr h1" and h1: "holders h1 b (insert this S)"
    by blast
  have "card (insert this S) + length cs < 2 ^ 32"
    using Cons.prems(5) fin notin by simp
  moreover have "set (map snd cs) \<inter> insert this S = {}"
    using Cons.prems(3,4) c by auto
  moreover have "distinct (map snd cs)" using Cons.prems(3) by simp
  moreover have "buffer \<in> insert this S" using Cons.prems(2) by simp
  ultimately obtain h' where "make_copies cs buffer h1 = Inr h'"
      and "holders h' b (insert this S \<union> set (map snd cs))"
    using Cons.IH [OF h1] by blast
  then show ?case using s c by auto
qed

lemma counter_positive:
  assumes "0 < n" and "n < 2 ^ 32"
  shows "(of_nat n :: 32 word) > 0" and "(of_nat n :: 32 word) - 1 = of_nat (n - 1)"
    and "(of_nat (n - 1) :: 32 word) = 0 \<longleftrightarrow> n = 1"
proof -
  have u: "unat (of_nat n :: 32 word) = n" using assms(2) by (simp add: unat_of_nat)
  then show "(of_nat n :: 32 word) > 0" using assms(1) by (simp add: word_less_nat_alt)
  show "(of_nat n :: 32 word) - 1 = of_nat (n - 1)" using assms(1) by (simp add: of_nat_diff)
  have "unat (of_nat (n - 1) :: 32 word) = n - 1" using assms(2) by (simp add: unat_of_nat)
  then have "(of_nat (n - 1) :: 32 word) = 0 \<longleftrightarrow> n - 1 = 0" by (metis unat_eq_0)
  then show "(of_nat (n - 1) :: 32 word) = 0 \<longleftrightarrow> n = 1" using assms(1) by auto
qed

lemma destroy_step_not_last:
  assumes "holders h b S" and "x \<in> S" and "1 < card S"
  shows "\<exists>h'. SharedBuffer_destroy x h = Inr h' \<and> holders h' b (S - {x}) \<and>
           released h' = released h \<and> arrays h' = arrays h"
proof -
  have o: "shared_buffers h x = Some b" and c: "counters h (refcount b) = Some (of_nat (card S))"
    and n: "card S < 2 ^ 32" and fin: "finite S"
    using assms(1,2) by (simp_all add: holders_def)
  have pos: "0 < card S" using assms(3) by simp
  note cp = counter_positive [OF pos n]
  have nz: "(of_nat (card S - 1) :: 32 word) \<noteq> 0" using cp(3) assms(3) by simp
  let ?h1 = "h\<lparr>counters := (counters h)(refcount b \<mapsto> of_nat (card S - 1))\<rparr>"
  let ?h' = "?h1\<lparr>shared_buffers := (shared_buffers ?h1)(x := None)\<rparr>"
  have "SharedBuffer_drop x h = Inr ?h1"
    using o c cp(1) nz by (simp add: SharedBuffer_drop_def assert_def Let_def cp(2))
  then have run: "SharedBuffer_destroy x h = Inr ?h'" by (simp add: SharedBuffer_destroy_def)
  have card: "card (S - {x}) = card S - 1" using fin assms(2) by simp
  have "holders ?h' b (S - {x})"
    using assms(1) card by (auto simp: holders_def split: option.splits)
  with run show ?thesis by (intro exI [of _ ?h']) simp
qed

lemma destroy_step_last:
  assumes "holders h b {x}"
  shows "\<exists>h'. SharedBuffer_destroy x h = Inr h' \<and>
           released h' = released h @ (case SharedBuffer.data b of None \<Rightarrow> [] | Some a \<Rightarrow> [a]) @ [refcount b] \<and>
           counters h' (refcount b) = None \<and>
           (\<forall>a. SharedBuffer.data b = Some a \<longrightarrow> arrays h' a = None)"
proof -
  have o: "shared_buffers h x = Some b" and c: "counters h (refcount b) = Some 1"
    using assms by (simp_all add: holders_def)
  show ?thesis
  proof (cases "SharedBuffer.data b")
    case None
    then show ?thesis using o c
      by (simp add: SharedBuffer_destroy_def SharedBuffer_drop_def assert_def Let_def
          delete_array_def delete_unsigned_int_def)
  next
    case (Some a)
    then obtain bs where "arrays h a = Some bs" using assms by (auto simp: holders_def)
    then show ?thesis using o c Some
      by (simp add: SharedBuffer_destroy_def SharedBuffer_drop_def assert_def Let_def
          delete_array_def delete_unsigned_int_def)
  qed
qed

lemma destroy_all_not_last:
  assumes "holders h b S" and "distinct ds" and "set ds \<subseteq> S" and "length ds < card S"
  shows "\<exists>h'. destroy_all ds h = Inr h' \<and> holders h' b (S - set ds) \<and>
           released h' = released h \<and> arrays h' = arrays h"
  using assms
proof (induction ds arbitrary: h S)
  case Nil
  then show ?case by simp
next
  case (Cons x ds)
  have fin: "finite S" using Cons.prems(1) by (simp add: holders_def)
  have x: "x \<in> S" using Cons.prems(3) by simp
  have "1 < card S" using Cons.prems(4) by simp
  from destroy_step_not_last [OF Cons.prems(1) x this]
  obtain h1 where s: "SharedBuffer_destroy x h = Inr h1" and h1: "holders h1 b (S - {x})"
    and r1: "released h1 = released h" and a1: "arrays h1 = arrays h"
    by blast
  have "distinct ds" "set ds \<subseteq> S - {x}" using Cons.prems(2,3) by auto
  moreover have "length ds < card (S - {x})" using Cons.prems(4) fin x by simp
  ultimately obtain h' where "destroy_all ds h1 = Inr h'" "holders h' b (S - {x} - set ds)"
      "released h' = released h1" "arrays h' = arrays h1"
    using Cons.IH [OF h1] by blast
  moreover have "S - {x} - set ds = S - set (x # ds)" by auto
  ultimately show ?case using s r1 a1 by simp
qed

lemma destroy_all_append:
  "destroy_all (xs @ ys) h = and_then (destroy_all xs h) (destroy_all ys)"
  by (induction xs arbitrary: h) (auto simp: and_then_def split: sum.splits)

lemma sole_holder_holders: "sole_holder h buffer b \<Longrightarrow> holders h b {buffer}"
  by (simp add: sole_holder_def holders_def)

text \<open>
  Claim C3, as the code has it. Let one SharedBuffer be the only holder of its storage,
  and let copies of it be made, each by the copy constructor or by assignment, so that
  there are \<open>M\<close> holders in all, the first one included, with \<open>M < 2^32\<close>. Then the
  holders can be destroyed in any order: while one is left, the block and the counter
  are live and neither was released; the last destruction releases each exactly once.
  The bound is that of the \<^verbatim>\<open>unsigned int\<close> counter: with \<open>2^32\<close> holders it has
  wrapped to 0 and the first destruction fails the assertion of \<^verbatim>\<open>drop\<close>, so that the
  storage is never released.
\<close>

theorem SharedBuffer_storage_freed_once:
  assumes init: "sole_holder h buffer b"
    and cs: "distinct (buffer # map snd cs)" "length cs + 1 < 2 ^ 32"
    and ds: "distinct ds" "set ds = set (buffer # map snd cs)"
  shows "\<exists>h1 h2 h3.
           make_copies cs buffer h = Inr h1 \<and> destroy_all (butlast ds) h1 = Inr h2 \<and>
           count_list (released h2) (refcount b) = 0 \<and> counters h2 (refcount b) \<noteq> None \<and>
           (\<forall>a. SharedBuffer.data b = Some a \<longrightarrow>
              count_list (released h2) a = 0 \<and> arrays h2 a \<noteq> None) \<and>
           SharedBuffer_destroy (last ds) h2 = Inr h3 \<and> destroy_all ds h1 = Inr h3 \<and>
           count_list (released h3) (refcount b) = 1 \<and> counters h3 (refcount b) = None \<and>
           (\<forall>a. SharedBuffer.data b = Some a \<longrightarrow>
              count_list (released h3) a = 1 \<and> arrays h3 a = None)"
proof -
  let ?S = "{buffer} \<union> set (map snd cs)"
  let ?r = "refcount b"
  have h0: "holders h b {buffer}" by (rule sole_holder_holders [OF init])
  have "\<exists>h1. make_copies cs buffer h = Inr h1 \<and> holders h1 b ?S"
    using cs by (intro make_copies_holders [OF h0]) simp_all
  then obtain h1 where m: "make_copies cs buffer h = Inr h1" and h1: "holders h1 b ?S" by blast
  have S: "set ds = ?S" using ds(2) by simp
  have card: "card ?S = length ds" using S ds(1) distinct_card [of ds] by simp
  have "ds \<noteq> []" using ds(2) by auto
  then have app: "butlast ds @ [last ds] = ds" by (rule append_butlast_last_id)
  have db: "distinct (butlast ds)" using ds(1) by (rule distinct_butlast)
  have sb: "set (butlast ds) \<subseteq> ?S" using S in_set_butlastD [of _ ds] by blast
  have lb: "length (butlast ds) < card ?S" using card \<open>ds \<noteq> []\<close> by simp
  from destroy_all_not_last [OF h1 db sb lb]
  obtain h2 where d2: "destroy_all (butlast ds) h1 = Inr h2"
    and h2: "holders h2 b (?S - set (butlast ds))" and r2: "released h2 = released h1"
    by blast
  have "set ds - set (butlast ds) = {last ds}"
  proof -
    have "distinct (butlast ds @ [last ds])" using ds(1) by (simp only: app)
    then have "last ds \<notin> set (butlast ds)" by simp
    moreover have "set (butlast ds @ [last ds]) = set (butlast ds) \<union> {last ds}" by simp
    then have "set ds = set (butlast ds) \<union> {last ds}" by (simp only: app)
    ultimately show ?thesis by auto
  qed
  then have one: "holders h2 b {last ds}" using h2 S by simp
  have nr: "?r \<notin> set (released h2)" and live: "counters h2 ?r \<noteq> None"
    and ne: "SharedBuffer.data b \<noteq> Some ?r"
    using one by (simp_all add: holders_def)
  have na: "a \<notin> set (released h2) \<and> arrays h2 a \<noteq> None" if "SharedBuffer.data b = Some a" for a
    using one that by (simp add: holders_def)
  from destroy_step_last [OF one]
  obtain h3 where d3: "SharedBuffer_destroy (last ds) h2 = Inr h3"
    and r3: "released h3 = released h2 @
        (case SharedBuffer.data b of None \<Rightarrow> [] | Some a \<Rightarrow> [a]) @ [?r]"
    and c3: "counters h3 ?r = None"
    and a3: "\<forall>a. SharedBuffer.data b = Some a \<longrightarrow> arrays h3 a = None"
    by blast
  have "destroy_all ds h1 = and_then (destroy_all (butlast ds) h1) (destroy_all [last ds])"
    using destroy_all_append [of "butlast ds" "[last ds]" h1] by (simp only: app)
  then have all: "destroy_all ds h1 = Inr h3" using d2 d3 by simp
  have cr: "count_list (released h3) ?r = 1"
    using nr ne by (simp add: r3 count_list_0_iff split: option.splits)
  have ca: "count_list (released h3) a = 1" if "SharedBuffer.data b = Some a" for a
    using na [OF that] ne that by (auto simp: r3 count_list_0_iff)
  show ?thesis
    using m d2 nr live na d3 all cr c3 a3 ca
    by (intro exI [of _ h1] exI [of _ h2] exI [of _ h3]) (simp add: count_list_0_iff)
qed

lemma make_copies_construct_counter:
  assumes "shared_buffers h buffer = Some b" and "counters h (refcount b) = Some v"
    and "buffer \<notin> set xs"
  shows "\<exists>h'. make_copies (map (Pair CopyConstruct) xs) buffer h = Inr h' \<and>
           shared_buffers h' buffer = Some b \<and>
           counters h' (refcount b) = Some (v + of_nat (length xs))"
  using assms
proof (induction xs arbitrary: h v)
  case Nil
  then show ?case by simp
next
  case (Cons x xs)
  let ?h0 = "h\<lparr>shared_buffers := (shared_buffers h)(x \<mapsto> b)\<rparr>"
  let ?h1 = "?h0\<lparr>counters := (counters ?h0)(refcount b \<mapsto> v + 1)\<rparr>"
  have s: "SharedBuffer_copy x buffer h = Inr ?h1"
    using Cons.prems(1,2) by (simp add: SharedBuffer_copy_def increment_result)
  have "shared_buffers ?h1 buffer = Some b" "counters ?h1 (refcount b) = Some (v + 1)"
    "buffer \<notin> set xs"
    using Cons.prems by auto
  from Cons.IH [OF this]
  obtain h' where "make_copies (map (Pair CopyConstruct) xs) buffer ?h1 = Inr h'"
      "shared_buffers h' buffer = Some b"
      "counters h' (refcount b) = Some (v + 1 + of_nat (length xs))"
    by blast
  then show ?case using s by (simp add: add.assoc)
qed

lemma sole_holder_one_shared:
  "sole_holder one_shared 10 \<lparr>SharedBuffer.data = Some 1, m_size = 1, refcount = 2\<rparr>"
  by (simp add: sole_holder_def one_shared_def empty_heap_def)

theorem SharedBuffer_storage_freed_once_witness:
  "sole_holder one_shared 10 \<lparr>SharedBuffer.data = Some 1, m_size = 1, refcount = 2\<rparr> \<and>
   distinct ((10 :: addr) # map snd [(CopyConstruct, 11), (CopyAssign, 12)]) \<and>
   length [(CopyConstruct, 11 :: addr), (CopyAssign, 12)] + 1 < (2 :: nat) ^ 32 \<and>
   distinct [11, 10, 12 :: addr] \<and>
   set [11, 10, 12 :: addr] = set (10 # map snd [(CopyConstruct, 11), (CopyAssign, 12)]) \<and>
   (\<exists>h1 h2 h3.
      make_copies [(CopyConstruct, 11), (CopyAssign, 12)] 10 one_shared = Inr h1 \<and>
      destroy_all [11, 10] h1 = Inr h2 \<and>
      count_list (released h2) 2 = 0 \<and> counters h2 2 \<noteq> None \<and>
      count_list (released h2) 1 = 0 \<and> arrays h2 1 \<noteq> None \<and>
      SharedBuffer_destroy 12 h2 = Inr h3 \<and> destroy_all [11, 10, 12] h1 = Inr h3 \<and>
      count_list (released h3) 2 = 1 \<and> counters h3 2 = None \<and>
      count_list (released h3) 1 = 1 \<and> arrays h3 1 = None)"
proof -
  let ?b = "\<lparr>SharedBuffer.data = Some 1, m_size = 1, refcount = 2\<rparr>"
  let ?cs = "[(CopyConstruct, 11 :: addr), (CopyAssign, 12)]"
  let ?ds = "[11, 10, 12 :: addr]"
  have c1: "distinct (10 # map snd ?cs)" and c2: "length ?cs + 1 < (2 :: nat) ^ 32"
    and d1: "distinct ?ds" and d2: "set ?ds = set (10 # map snd ?cs)"
    by auto
  from SharedBuffer_storage_freed_once [OF sole_holder_one_shared c1 c2 d1 d2]
  obtain h1 h2 h3 where
    "make_copies ?cs 10 one_shared = Inr h1" "destroy_all (butlast ?ds) h1 = Inr h2"
    "count_list (released h2) (refcount ?b) = 0" "counters h2 (refcount ?b) \<noteq> None"
    "\<forall>a. SharedBuffer.data ?b = Some a \<longrightarrow> count_list (released h2) a = 0 \<and> arrays h2 a \<noteq> None"
    "SharedBuffer_destroy (last ?ds) h2 = Inr h3" "destroy_all ?ds h1 = Inr h3"
    "count_list (released h3) (refcount ?b) = 1" "counters h3 (refcount ?b) = None"
    "\<forall>a. SharedBuffer.data ?b = Some a \<longrightarrow> count_list (released h3) a = 1 \<and> arrays h3 a = None"
    by blast
  then have "make_copies ?cs 10 one_shared = Inr h1 \<and> destroy_all [11, 10] h1 = Inr h2 \<and>
      count_list (released h2) 2 = 0 \<and> counters h2 2 \<noteq> None \<and>
      count_list (released h2) 1 = 0 \<and> arrays h2 1 \<noteq> None \<and>
      SharedBuffer_destroy 12 h2 = Inr h3 \<and> destroy_all ?ds h1 = Inr h3 \<and>
      count_list (released h3) 2 = 1 \<and> counters h3 2 = None \<and>
      count_list (released h3) 1 = 1 \<and> arrays h3 1 = None"
    by simp
  then show ?thesis using sole_holder_one_shared c1 c2 d1 d2 by blast
qed

lemma many_copies_facts:
  "map snd many_copies = [11..<11 + (2 ^ 32 - 1)]" "length many_copies = 2 ^ 32 - 1"
  by (simp_all only: many_copies_def map_map comp_def snd_conv map_ident length_map length_upt
      add_diff_cancel_left')

theorem SharedBuffer_counter_wraps_counterexample:
  "sole_holder one_shared 10 \<lparr>SharedBuffer.data = Some 1, m_size = 1, refcount = 2\<rparr> \<and>
   distinct (10 # map snd many_copies) \<and> length many_copies + 1 = 2 ^ 32 \<and>
   \<not> isl (make_copies many_copies 10 one_shared) \<and>
   counters (projr (make_copies many_copies 10 one_shared)) 2 = Some 0 \<and>
   SharedBuffer_destroy 10 (projr (make_copies many_copies 10 one_shared)) = Inl AssertionFailed \<and>
   destroy_all (10 # map snd many_copies) (projr (make_copies many_copies 10 one_shared))
     = Inl AssertionFailed"
proof -
  let ?b = "\<lparr>SharedBuffer.data = Some 1, m_size = 1, refcount = 2\<rparr>"
  let ?xs = "[11..<11 + (2 ^ 32 - 1)] :: addr list"
  have o: "shared_buffers one_shared 10 = Some ?b" and c: "counters one_shared (refcount ?b) = Some 1"
    by (simp_all add: one_shared_def)
  have notin: "(10 :: addr) \<notin> set ?xs" by (simp only: set_upt atLeastLessThan_iff) simp
  have dist: "distinct (10 # map snd many_copies)"
    unfolding many_copies_facts(1) distinct.simps by (intro conjI notin distinct_upt)
  have len: "length many_copies + 1 = 2 ^ 32" by (simp only: many_copies_facts) simp
  have lx: "length ?xs = 2 ^ 32 - 1" by (simp only: length_upt add_diff_cancel_left')
  from make_copies_construct_counter [OF o c notin]
  obtain h' where m: "make_copies many_copies 10 one_shared = Inr h'"
    and o': "shared_buffers h' 10 = Some ?b"
    and c': "counters h' (refcount ?b) = Some (1 + of_nat (length ?xs))"
    unfolding many_copies_def by blast
  have rb: "refcount ?b = 2" by simp
  have w: "(1 + of_nat (2 ^ 32 - 1) :: 32 word) = 0" by simp
  have z: "counters h' 2 = Some 0" using c' unfolding rb lx w .
  have d: "SharedBuffer_destroy 10 h' = Inl AssertionFailed"
    using o' z by (simp add: SharedBuffer_destroy_def SharedBuffer_drop_def assert_def)
  have da: "destroy_all (10 # map snd many_copies) h' = Inl AssertionFailed"
    by (simp only: destroy_all.simps d and_then_Inl)
  show ?thesis
    using sole_holder_one_shared dist len z d da by (simp only: m sum.sel sum.disc simp_thms)
qed

end
